theory Spec2Isabelle
  imports Main "HOL-Library.Sublist" "HOL-Library.AList"
begin

section \<open>JavaScript strings\<close>

text \<open>
  A string of the program is modelled as a \<^typ>\<open>string\<close>, each \<^typ>\<open>char\<close> read as
  one code unit in the range U+0000 .. U+00FF (Basic Latin and Latin-1 Supplement).
  On that range the white space of \<^verbatim>\<open>String.prototype.trim\<close> and of the regular
  expression class \<^verbatim>\<open>\s\<close> is TAB, LF, VT, FF, CR, SPACE and NBSP, and
  \<^verbatim>\<open>toLowerCase\<close> moves the letters A-Z and U+00C0 .. U+00DE (without the
  multiplication sign U+00D7) up by 32 and leaves every other code unit alone.
\<close>

definition isSpace :: "char \<Rightarrow> bool" where
  "isSpace c = (c \<in> set [CHR 0x09, CHR 0x0A, CHR 0x0B, CHR 0x0C, CHR 0x0D, CHR '' '', CHR 0xA0])"

definition isUpper :: "char \<Rightarrow> bool" where
  "isUpper c = (let n = (of_char c :: nat) in
     (65 \<le> n \<and> n \<le> 90) \<or> (192 \<le> n \<and> n \<le> 214) \<or> (216 \<le> n \<and> n \<le> 222))"

definition lowerChar :: "char \<Rightarrow> char" where
  "lowerChar c = (if isUpper c then char_of ((of_char c :: nat) + 32) else c)"

definition toLowerCase :: "string \<Rightarrow> string" where
  "toLowerCase s = map lowerChar s"

definition trim :: "string \<Rightarrow> string" where
  "trim s = rev (dropWhile isSpace (rev (dropWhile isSpace s)))"

text \<open>\<^verbatim>\<open>s.replace(/\s+/g, " ")\<close>: every maximal run of white space becomes one space.\<close>

function collapseSpaces :: "string \<Rightarrow> string" where
  "collapseSpaces [] = []"
| "collapseSpaces (c # cs) =
     (if isSpace c then CHR '' '' # collapseSpaces (dropWhile isSpace cs)
      else c # collapseSpaces cs)"
  by pat_completeness auto
termination
  by (relation "measure length") (auto simp: length_dropWhile_le less_Suc_eq_le)

text \<open>\<^verbatim>\<open>t.includes(p)\<close> and \<^verbatim>\<open>t.startsWith(p)\<close>.\<close>

definition trimmed :: "string \<Rightarrow> bool" where
  "trimmed t = (t = [] \<or> (\<not> isSpace (hd t) \<and> \<not> isSpace (last t)))"

definition startsWith :: "string \<Rightarrow> string \<Rightarrow> bool" where
  "startsWith t p = (take (length p) t = p)"

fun includesStr :: "string \<Rightarrow> string \<Rightarrow> bool" where
  "includesStr [] p = (p = [])"
| "includesStr (c # cs) p = (startsWith (c # cs) p \<or> includesStr cs p)"

section \<open>agent.js: normalize, isMcpNotFound, stripSourcesSection\<close>

text \<open>
  \<^verbatim>\<open>const normalize = (s) => String(s || "").trim().replace(/\s+/g, " ").toLowerCase();\<close>
\<close>

definition normalize :: "string \<Rightarrow> string" where
  "normalize s = toLowerCase (collapseSpaces (trim s))"

text \<open>
  \<^verbatim>\<open>isMcpNotFound\<close>, with the checks in the order of the source: the test for
  "policy file not found" sits between the second and the third not-found pattern.
\<close>

definition isMcpNotFound :: "string \<Rightarrow> bool" where
  "isMcpNotFound text =
     (if text = [] then True
      else let t = toLowerCase text in
        if includesStr t ''not available in our current document'' then True
        else if includesStr t ''company information file not found'' then True
        else if includesStr t ''policy file not found'' then False
        else if includesStr t ''no companies found in the knowledge base'' then True
        else if startsWith t ''error:'' then True
        else False)"

text \<open>
  \<^verbatim>\<open>String(text).replace(/\n\s*Sources:\s*[\s\S]*$/i, "").trim()\<close>. The expression
  matches at a line feed that is followed by white space and then, in any letter case,
  by \<^verbatim>\<open>Sources:\<close>; the match runs to the end of the text, and \<^verbatim>\<open>replace\<close>
  takes the leftmost one.
\<close>

definition matchesSourcesAt :: "string \<Rightarrow> bool" where
  "matchesSourcesAt s =
     (case s of [] \<Rightarrow> False
      | c # cs \<Rightarrow> c = CHR 0x0A \<and> startsWith (toLowerCase (dropWhile isSpace cs)) ''sources:'')"

fun removeSources :: "string \<Rightarrow> string" where
  "removeSources [] = []"
| "removeSources (c # cs) = (if matchesSourcesAt (c # cs) then [] else c # removeSources cs)"

definition stripSourcesSection :: "string \<Rightarrow> string" where
  "stripSourcesSection text = (if text = [] then [] else trim (removeSources text))"

fun hasSourcesSection :: "string \<Rightarrow> bool" where
  "hasSourcesSection [] = False"
| "hasSourcesSection (c # cs) = (matchesSourcesAt (c # cs) \<or> hasSourcesSection cs)"


section \<open>agent.js: providers, web search and the engine state\<close>

text \<open>
  The asynchronous capabilities the engine awaits are parameters of the model. Each one is
  the function of its arguments that the awaited promise settles to: \<open>Inr v\<close> when it
  fulfils with \<open>v\<close>, \<open>Inl e\<close> when it rejects. \<open>fetchSerp\<close> is the \<^verbatim>\<open>fetch\<close> of
  \<^verbatim>\<open>searchWeb\<close> (response status, and the \<^verbatim>\<open>organic_results\<close> array of its
  JSON body with the fields already defaulted to the empty string, \<open>None\<close> when it is not
  an array); \<open>completeFromSnippets\<close> is the chat completion of \<^verbatim>\<open>answerFromWeb\<close>
  (\<open>None\<close> when the response carries no content).
\<close>

datatype error = ConfigError | HttpError | ProviderError | RangeError

record search_result =
  title :: string
  link :: string
  snippet :: string

record serp_response =
  resp_ok :: bool
  resp_json :: "error + search_result list option"

record providers =
  isQuantifiable :: "string \<Rightarrow> error + bool"
  decomposeToQuantifiable :: "string \<Rightarrow> error + string list"
  detectFollowupsFromAnswer :: "string \<Rightarrow> string \<Rightarrow> error + string list"
  callAskChatGPT :: "string \<Rightarrow> error + string"
  SERPAPI_API_KEY :: "string option"
  fetchSerp :: "string \<Rightarrow> error + serp_response"
  completeFromSnippets :: "string \<Rightarrow> search_result list \<Rightarrow> error + string option"

definition searchWeb :: "providers \<Rightarrow> string \<Rightarrow> nat \<Rightarrow> error + search_result list" where
  "searchWeb P query num =
     (case SERPAPI_API_KEY P of
        None \<Rightarrow> Inl ConfigError
      | Some apiKey \<Rightarrow>
          if apiKey = [] then Inl ConfigError
          else (case fetchSerp P query of
                  Inl e \<Rightarrow> Inl e
                | Inr resp \<Rightarrow>
                    if \<not> resp_ok resp then Inl HttpError
                    else (case resp_json resp of
                            Inl e \<Rightarrow> Inl e
                          | Inr json \<Rightarrow>
                              Inr (take num (case json of None \<Rightarrow> [] | Some organic \<Rightarrow> organic)))))"

record web_answer =
  web_ok :: bool
  web_text :: string
  web_sources :: "string list"

definition answerFromWeb :: "providers \<Rightarrow> string \<Rightarrow> error + web_answer" where
  "answerFromWeb P question =
     (case searchWeb P question 5 of
        Inl e \<Rightarrow> Inl e
      | Inr results \<Rightarrow>
          if results = [] then
            Inr \<lparr>web_ok = False, web_text = ''No web results found.'', web_sources = []\<rparr>
          else (case completeFromSnippets P question results of
                  Inl e \<Rightarrow> Inl e
                | Inr content \<Rightarrow>
                    Inr \<lparr>web_ok = True,
                         web_text = (case content of None \<Rightarrow> [] | Some c \<Rightarrow> trim c),
                         web_sources = map link (filter (\<lambda>r. link r \<noteq> []) results)\<rparr>))"

datatype source = Mcp | Web

record entry =
  entryQuestionOriginal :: string
  quantifiable :: bool
  answer :: string
  source :: "source option"
  sources :: "string list"
  entryParentOriginal :: "string option"
  parentKey :: "string option"

record child =
  key :: string
  childQuestionOriginal :: string

record node =
  questionOriginal :: string
  parentOriginal :: "string option"
  depth :: nat

text \<open>
  What a run does beyond its maps is kept in a trace: each provider call, each
  \<^verbatim>\<open>answered.set\<close> and each increment of \<^verbatim>\<open>totalGenerated\<close> (a proposed
  child with its parent) appends one event. \<open>rounds\<close> counts the entries into the body of
  the \<^verbatim>\<open>while\<close> loop. The maps are association lists in insertion order:
  \<^const>\<open>AList.update\<close> replaces the value of a key that is present where it stands and
  appends a new key at the end, as \<^verbatim>\<open>Map.prototype.set\<close> does.
\<close>

datatype event =
    Classified string
  | Decomposed string
  | AskedMcp string
  | AskedWeb string
  | AskedFollowups string string
  | AnsweredSet string
  | Proposed string string

record engine_state =
  answered :: "(string \<times> entry) list"
  children :: "(string \<times> child list) list"
  seen :: "string set"
  totalGenerated :: nat
  rounds :: nat
  trace :: "event list"

definition initialState :: engine_state where
  "initialState = \<lparr>answered = [], children = [], seen = {}, totalGenerated = 1,
     rounds = 0, trace = []\<rparr>"

text \<open>The em dash of the sentinel (U+2014) lies outside the modelled code units; it is
  carried as three opaque characters. The sentinel is only stored and compared.\<close>

definition NOT_ANSWERED :: string where
  "NOT_ANSWERED = ''[Not answered '' @ [CHR 0xE2, CHR 0x80, CHR 0x94] @ '' non-quantifiable]''"

definition emit :: "event \<Rightarrow> engine_state \<Rightarrow> engine_state" where
  "emit ev s = s\<lparr>trace := trace s @ [ev]\<rparr>"

definition setAnswered :: "string \<Rightarrow> entry \<Rightarrow> engine_state \<Rightarrow> engine_state" where
  "setAnswered k e s =
     s\<lparr>answered := AList.update k e (answered s), trace := trace s @ [AnsweredSet k]\<rparr>"

definition childrenOf :: "engine_state \<Rightarrow> string \<Rightarrow> child list" where
  "childrenOf s k = (case map_of (children s) k of None \<Rightarrow> [] | Some arr \<Rightarrow> arr)"

definition addChild :: "string option \<Rightarrow> string \<Rightarrow> string \<Rightarrow> engine_state \<Rightarrow> engine_state" where
  "addChild pKey childKey childOriginal s =
     (case pKey of
        None \<Rightarrow> s
      | Some pk \<Rightarrow>
          if pk = [] then s
          else let arr = childrenOf s pk in
            s\<lparr>children := AList.update pk
                 (if list_ex (\<lambda>x. key x = childKey) arr then arr
                  else arr @ [\<lparr>key = childKey, childQuestionOriginal = childOriginal\<rparr>])
                 (children s)\<rparr>)"

definition keyOfParent :: "string option \<Rightarrow> string option" where
  "keyOfParent parentOrig =
     (case parentOrig of
        None \<Rightarrow> None
      | Some p \<Rightarrow> if p = [] then None else Some (normalize p))"

text \<open>The first \<^verbatim>\<open>for\<close> loop of a round: edges are recorded, then duplicates dropped.\<close>

fun dedupPass :: "node list \<Rightarrow> engine_state \<Rightarrow> node list \<times> engine_state" where
  "dedupPass [] s = ([], s)"
| "dedupPass (n # pocket) s =
     (let q = trim (questionOriginal n) in
      if q = [] then dedupPass pocket s
      else
        let qKey = normalize q;
            parentOrig = (case parentOriginal n of
                            None \<Rightarrow> None
                          | Some p \<Rightarrow> if p = [] then None else Some (trim p));
            pKey = keyOfParent parentOrig;
            s1 = (case pKey of
                    None \<Rightarrow> s
                  | Some pk \<Rightarrow> if pk = [] then s else addChild pKey qKey q s)
        in if qKey \<in> seen s1 then dedupPass pocket s1
           else (case dedupPass pocket (s1\<lparr>seen := insert qKey (seen s1)\<rparr>) of
                   (uniquePocket, s2) \<Rightarrow>
                     (\<lparr>questionOriginal = q, parentOriginal = parentOrig, depth = depth n\<rparr>
                        # uniquePocket, s2)))"

text \<open>The two expansions build their next nodes the same way: trim, drop the empty
  strings, count each remaining one in \<^verbatim>\<open>totalGenerated\<close>.\<close>

definition propose :: "string \<Rightarrow> nat \<Rightarrow> string list \<Rightarrow> engine_state \<Rightarrow> node list \<times> engine_state" where
  "propose qOriginal d xs s =
     (let qs = filter (\<lambda>x. x \<noteq> []) (map trim xs) in
      (map (\<lambda>x. \<lparr>questionOriginal = x, parentOriginal = Some qOriginal, depth = d + 1\<rparr>) qs,
       s\<lparr>totalGenerated := totalGenerated s + length qs,
         trace := trace s @ map (Proposed qOriginal) qs\<rparr>))"

definition answerQuantifiable ::
  "nat \<Rightarrow> providers \<Rightarrow> node \<Rightarrow> string \<Rightarrow> source \<Rightarrow> string list \<Rightarrow> engine_state
     \<Rightarrow> (error + node list) \<times> engine_state" where
  "answerQuantifiable MAX_DEPTH P n answerText src srcs s =
     (let qOriginal = questionOriginal n;
          s1 = setAnswered (normalize qOriginal)
                 \<lparr>entryQuestionOriginal = qOriginal, quantifiable = True, answer = answerText,
                  source = Some src, sources = srcs,
                  entryParentOriginal = parentOriginal n,
                  parentKey = keyOfParent (parentOriginal n)\<rparr> s
      in if depth n < MAX_DEPTH then
           (let s2 = emit (AskedFollowups qOriginal answerText) s1 in
            case detectFollowupsFromAnswer P qOriginal answerText of
              Inl e \<Rightarrow> (Inl e, s2)
            | Inr followups \<Rightarrow>
                (case propose qOriginal (depth n) followups s2 of (nextNodes, s3) \<Rightarrow> (Inr nextNodes, s3)))
         else (Inr [], s1))"

text \<open>One task of the \<^verbatim>\<open>Promise.all\<close>: classify, then record without answering, or
  answer from the knowledge base with the web as fallback; then expand.\<close>

definition resolveNode ::
  "nat \<Rightarrow> providers \<Rightarrow> node \<Rightarrow> engine_state \<Rightarrow> (error + node list) \<times> engine_state" where
  "resolveNode MAX_DEPTH P n s =
     (let qOriginal = questionOriginal n;
          s1 = emit (Classified qOriginal) s
      in case isQuantifiable P qOriginal of
           Inl e \<Rightarrow> (Inl e, s1)
         | Inr False \<Rightarrow>
             (let s2 = setAnswered (normalize qOriginal)
                         \<lparr>entryQuestionOriginal = qOriginal, quantifiable = False,
                          answer = NOT_ANSWERED, source = None, sources = [],
                          entryParentOriginal = parentOriginal n,
                          parentKey = keyOfParent (parentOriginal n)\<rparr> s1
              in if depth n < MAX_DEPTH then
                   (let s3 = emit (Decomposed qOriginal) s2 in
                    case decomposeToQuantifiable P qOriginal of
                      Inl e \<Rightarrow> (Inl e, s3)
                    | Inr subs \<Rightarrow>
                        (case propose qOriginal (depth n) subs s3 of
                           (nextNodes, s4) \<Rightarrow> (Inr nextNodes, s4)))
                 else (Inr [], s2))
         | Inr True \<Rightarrow>
             (let s2 = emit (AskedMcp qOriginal) s1;
                  mcpAnswer = (case callAskChatGPT P qOriginal of
                                 Inl e \<Rightarrow> None
                               | Inr t \<Rightarrow> if isMcpNotFound t then None else Some (trim t))
              in case mcpAnswer of
                   Some a \<Rightarrow> answerQuantifiable MAX_DEPTH P n a Mcp [] s2
                 | None \<Rightarrow>
                     (let s3 = emit (AskedWeb qOriginal) s2 in
                      case answerFromWeb P qOriginal of
                        Inl e \<Rightarrow> (Inl e, s3)
                      | Inr web \<Rightarrow>
                          answerQuantifiable MAX_DEPTH P n
                            (if web_ok web then stripSourcesSection (web_text web)
                             else ''No data found.'')
                            Web (web_sources web) s3)))"

text \<open>
  \<^verbatim>\<open>Promise.all\<close> over the round's tasks, in the schedule where the tasks settle in
  the order of the pocket. The first rejection rejects the whole; what the tasks after it
  would still write is not part of the run's result.
\<close>

fun answerAll ::
  "nat \<Rightarrow> providers \<Rightarrow> node list \<Rightarrow> engine_state \<Rightarrow> (error + node list list) \<times> engine_state" where
  "answerAll MAX_DEPTH P [] s = (Inr [], s)"
| "answerAll MAX_DEPTH P (n # ns) s =
     (case resolveNode MAX_DEPTH P n s of
        (Inl e, s1) \<Rightarrow> (Inl e, s1)
      | (Inr nextNodes, s1) \<Rightarrow>
          (case answerAll MAX_DEPTH P ns s1 of
             (Inl e, s2) \<Rightarrow> (Inl e, s2)
           | (Inr results, s2) \<Rightarrow> (Inr (nextNodes # results), s2)))"

section \<open>agent.js: the frontier loop\<close>

text \<open>
  The \<^verbatim>\<open>while (pocket.length > 0)\<close> loop of \<^verbatim>\<open>answerWithAgent\<close>, with
  \<^verbatim>\<open>MAX_DEPTH\<close> as a parameter (1 in the source). It returns the rejection, if
  any, and the state it leaves. It terminates because a node of the next pocket is one
  deeper than a node of this one that lies below \<^verbatim>\<open>MAX_DEPTH\<close>.
\<close>

definition rank :: "nat \<Rightarrow> node list \<Rightarrow> nat" where
  "rank MAX_DEPTH pocket = Max (insert 0 ((\<lambda>n. Suc (MAX_DEPTH - depth n)) ` set pocket))"

lemma propose_depth: "propose q d xs s = (nx, s') \<Longrightarrow> m \<in> set nx \<Longrightarrow> depth m = Suc d"
  by (auto simp: propose_def Let_def)

lemma answerQuantifiable_depth:
  "answerQuantifiable D P n a src srcs s = (Inr nx, s') \<Longrightarrow> m \<in> set nx \<Longrightarrow>
     depth m = Suc (depth n) \<and> depth n < D"
  by (auto simp: answerQuantifiable_def Let_def split: if_splits sum.splits prod.splits
      dest: propose_depth)

lemma resolveNode_depth:
  "resolveNode D P n s = (Inr nx, s') \<Longrightarrow> m \<in> set nx \<Longrightarrow>
     depth m = Suc (depth n) \<and> depth n < D"
  unfolding resolveNode_def Let_def
  by (auto split: if_splits sum.splits prod.splits bool.splits option.splits
      dest: propose_depth answerQuantifiable_depth)

lemma answerAll_depth:
  "answerAll D P ns s = (Inr results, s') \<Longrightarrow> m \<in> set (concat results) \<Longrightarrow>
     \<exists>n\<in>set ns. depth m = Suc (depth n) \<and> depth n < D"
proof (induction ns arbitrary: s results)
  case Nil
  then show ?case by simp
next
  case (Cons n ns)
  then show ?case
    by (fastforce split: prod.splits sum.splits dest: resolveNode_depth)
qed

lemma dedupPass_depth:
  "dedupPass pocket s = (u, s') \<Longrightarrow> m \<in> set u \<Longrightarrow> \<exists>n\<in>set pocket. depth m = depth n"
proof (induction pocket arbitrary: s u)
  case Nil
  then show ?case by simp
next
  case (Cons n pocket)
  then show ?case
    by (fastforce simp: Let_def split: if_splits prod.splits)
qed

lemma rank_ge: "n \<in> set pocket \<Longrightarrow> Suc (D - depth n) \<le> rank D pocket"
  by (simp add: rank_def)

lemma rank_less:
  assumes ne: "pocket \<noteq> []"
    and step: "\<And>m. m \<in> set nxt \<Longrightarrow> \<exists>n\<in>set pocket. depth m = Suc (depth n) \<and> depth n < D"
  shows "rank D nxt < rank D pocket"
proof -
  from ne obtain n0 where "n0 \<in> set pocket" by (cases pocket) auto
  then have pos: "0 < rank D pocket" using rank_ge [of n0 pocket D] by simp
  have "\<And>m. m \<in> set nxt \<Longrightarrow> Suc (D - depth m) < rank D pocket"
  proof -
    fix m assume "m \<in> set nxt"
    then obtain n where n: "n \<in> set pocket" "depth m = Suc (depth n)" "depth n < D"
      using step by blast
    from rank_ge [OF n(1), of D] n(2,3) show "Suc (D - depth m) < rank D pocket" by simp
  qed
  with pos show ?thesis by (auto simp: rank_def)
qed

function engineLoop ::
  "nat \<Rightarrow> providers \<Rightarrow> node list \<Rightarrow> engine_state \<Rightarrow> error option \<times> engine_state" where
  "engineLoop MAX_DEPTH P pocket s =
     (if pocket = [] then (None, s)
      else (case dedupPass pocket (s\<lparr>rounds := Suc (rounds s)\<rparr>) of
              (uniquePocket, s1) \<Rightarrow>
                if uniquePocket = [] then (None, s1)
                else (case answerAll MAX_DEPTH P uniquePocket s1 of
                        (Inl e, s2) \<Rightarrow> (Some e, s2)
                      | (Inr results, s2) \<Rightarrow> engineLoop MAX_DEPTH P (concat results) s2)))"
  by pat_completeness auto
termination
proof (relation "measure (\<lambda>(D, P, pocket, s). rank D pocket)")
  show "wf (measure (\<lambda>(D, P, pocket, s). rank D pocket))" by simp
next
  fix MAX_DEPTH P pocket s uniquePocket s1 r s2 results
  assume ne: "pocket \<noteq> []"
    and dd: "(uniquePocket, s1) = dedupPass pocket (s\<lparr>rounds := Suc (rounds s)\<rparr>)"
    and aa: "(r, s2) = answerAll MAX_DEPTH P uniquePocket s1" "r = Inr results"
  have "rank MAX_DEPTH (concat results) < rank MAX_DEPTH pocket"
  proof (rule rank_less [OF ne])
    fix m assume m: "m \<in> set (concat results)"
    from aa have "answerAll MAX_DEPTH P uniquePocket s1 = (Inr results, s2)" by simp
    from answerAll_depth [OF this m]
    obtain u where u: "u \<in> set uniquePocket" "depth m = Suc (depth u)" "depth u < MAX_DEPTH"
      by blast
    from dedupPass_depth [OF dd [symmetric] u(1)]
    obtain n where "n \<in> set pocket" "depth u = depth n" by blast
    with u show "\<exists>n\<in>set pocket. depth m = Suc (depth n) \<and> depth n < MAX_DEPTH" by auto
  qed
  then show "((MAX_DEPTH, P, concat results, s2), (MAX_DEPTH, P, pocket, s))
      \<in> measure (\<lambda>(D, P, pocket, s). rank D pocket)" by simp
qed


declare engineLoop.simps [simp del]

section \<open>agent.js: answerWithAgent\<close>

record turn =
  role :: string
  content :: "string option"

text \<open>\<^verbatim>\<open>extractLatestUserQuestion\<close> walks the chat from its end; \<open>content = None\<close> is
  a content that is not a string.\<close>

fun latestUserQuestion :: "turn list \<Rightarrow> string" where
  "latestUserQuestion [] = []"
| "latestUserQuestion (m # ms) =
     (case content m of
        None \<Rightarrow> latestUserQuestion ms
      | Some c \<Rightarrow>
          if role m = ''user'' \<and> trim c \<noteq> [] then trim c else latestUserQuestion ms)"

definition extractLatestUserQuestion :: "turn list \<Rightarrow> string" where
  "extractLatestUserQuestion chat = latestUserQuestion (rev chat)"

record block =
  block_id :: nat
  block_question :: string
  block_answer :: string
  block_sources :: "string list"

record run_stats =
  questionsAnswered :: nat
  stats_totalGenerated :: nat
  totalSeen :: nat

definition blocksOf :: "engine_state \<Rightarrow> block list" where
  "blocksOf s =
     map (\<lambda>(i, x). \<lparr>block_id = i, block_question = entryQuestionOriginal x,
                     block_answer = answer x, block_sources = sources x\<rparr>)
       (enumerate 0 (map snd (answered s)))"

definition rootPocket :: "string \<Rightarrow> node list" where
  "rootPocket initialQuestion =
     [\<lparr>questionOriginal = trim initialQuestion, parentOriginal = None, depth = 0\<rparr>]"

text \<open>
  \<^verbatim>\<open>render\<close> recurses over the edge table: a node is printed, then each of its
  children under the key of the child's own text. Nothing bounds the recursion but the
  call stack, so the model takes the number of frames the stack allows; \<open>None\<close> is the
  \<^verbatim>\<open>RangeError\<close> of a stack that overflows.
\<close>

definition pad :: "nat \<Rightarrow> string" where
  "pad indent = concat (replicate indent ''  '')"

definition sourceName :: "source \<Rightarrow> string" where
  "sourceName src = (case src of Mcp \<Rightarrow> ''mcp'' | Web \<Rightarrow> ''web'')"

definition renderNode :: "engine_state \<Rightarrow> string \<Rightarrow> nat \<Rightarrow> string" where
  "renderNode s qOriginal indent =
     pad indent @ ''- Q: '' @ qOriginal @ [CHR 0x0A] @
     (case map_of (answered s) (normalize qOriginal) of
        Some e \<Rightarrow>
          pad indent @ ''  Quantifiable: '' @ (if quantifiable e then ''yes'' else ''no'') @ [CHR 0x0A] @
          pad indent @ ''  A: '' @ answer e @ [CHR 0x0A] @
          (case source e of
             Some src \<Rightarrow> pad indent @ ''  Source: '' @ sourceName src @ [CHR 0x0A]
           | None \<Rightarrow> [])
      | None \<Rightarrow>
          pad indent @ ''  Quantifiable: unknown'' @ [CHR 0x0A] @
          pad indent @ ''  A: [No entry generated]'' @ [CHR 0x0A])"

fun render :: "nat \<Rightarrow> engine_state \<Rightarrow> string \<Rightarrow> nat \<Rightarrow> string option"
  and renderKids :: "nat \<Rightarrow> engine_state \<Rightarrow> child list \<Rightarrow> nat \<Rightarrow> string option" where
  "render 0 s qOriginal indent = None"
| "render (Suc frames) s qOriginal indent =
     (case renderKids frames s (childrenOf s (normalize qOriginal)) (indent + 1) of
        None \<Rightarrow> None
      | Some out \<Rightarrow> Some (renderNode s qOriginal indent @ out))"
| "renderKids frames s [] indent = Some []"
| "renderKids frames s (k # kids) indent =
     (case render frames s (childQuestionOriginal k) indent of
        None \<Rightarrow> None
      | Some out \<Rightarrow>
          (case renderKids frames s kids indent of
             None \<Rightarrow> None
           | Some rest \<Rightarrow> Some (out @ rest)))"

text \<open>
  The outcome of \<^verbatim>\<open>answerWithAgent\<close>: \<open>NoQuestion\<close> is
  \<^verbatim>\<open>{ ok: false, error: "No user question found." }\<close>, \<open>Rejected e\<close> is the
  rejection of the returned promise, \<open>Answered\<close> is
  \<^verbatim>\<open>{ ok: true, blocks, rendered, stats }\<close>. \<open>stack\<close> is the number of frames
  \<^verbatim>\<open>render\<close> may nest.
\<close>

datatype response = NoQuestion | Rejected error | Answered "block list" string run_stats

definition answerWithAgent :: "nat \<Rightarrow> nat \<Rightarrow> providers \<Rightarrow> turn list \<Rightarrow> response" where
  "answerWithAgent MAX_DEPTH stack P chat =
     (let initialQuestion = extractLatestUserQuestion chat in
      if initialQuestion = [] then NoQuestion
      else (case engineLoop MAX_DEPTH P (rootPocket initialQuestion) initialState of
              (Some e, s) \<Rightarrow> Rejected e
            | (None, s) \<Rightarrow>
                (case render stack s (trim initialQuestion) 0 of
                   None \<Rightarrow> Rejected RangeError
                 | Some rendered \<Rightarrow>
                     Answered (blocksOf s) rendered
                       \<lparr>questionsAnswered = length (blocksOf s),
                        stats_totalGenerated = totalGenerated s,
                        totalSeen = length (answered s)\<rparr>)))"

section \<open>crewaudit.js: auditAndPolish\<close>











section \<open>Observations and sample inputs\<close>

text \<open>What a step added to the trace, and the entry stored under a key.\<close>

definition newEvents :: "engine_state \<Rightarrow> engine_state \<Rightarrow> event list" where
  "newEvents s s' = drop (length (trace s)) (trace s')"

definition entryOf :: "engine_state \<Rightarrow> string \<Rightarrow> entry option" where
  "entryOf s k = map_of (answered s) k"

text \<open>The keys that \<^verbatim>\<open>answered.set\<close> was called with, in order; the key a node is
  answered under; and the write-once property of a state: the keys of \<open>answered\<close> are
  the keys written, each written once.\<close>

fun writtenKey :: "event \<Rightarrow> string list" where
  "writtenKey (AnsweredSet k) = [k]"
| "writtenKey ev = []"

definition writes :: "engine_state \<Rightarrow> string list" where
  "writes s = concat (map writtenKey (trace s))"

definition nodeKey :: "node \<Rightarrow> string" where
  "nodeKey n = normalize (questionOriginal n)"

definition writeOnce :: "engine_state \<Rightarrow> bool" where
  "writeOnce s = (map fst (answered s) = writes s \<and> distinct (writes s))"




definition userChat :: "string \<Rightarrow> turn list" where
  "userChat q = [\<lparr>role = ''user'', content = Some q\<rparr>]"

text \<open>The children proposed in a run, each with its parent, in the order of the
  increments of \<^verbatim>\<open>totalGenerated\<close>; the number of edges from a parent key to a
  child key; and the two properties of the edge table that the loop maintains: no parent
  lists a child key twice, and every proposed child has its edge or still waits in the
  pocket.\<close>

fun proposedPair :: "event \<Rightarrow> (string \<times> string) list" where
  "proposedPair (Proposed p c) = [(p, c)]"
| "proposedPair ev = []"

definition proposalsOf :: "engine_state \<Rightarrow> (string \<times> string) list" where
  "proposalsOf s = concat (map proposedPair (trace s))"

definition edgeCount :: "engine_state \<Rightarrow> string \<Rightarrow> string \<Rightarrow> nat" where
  "edgeCount s pk ck = length (filter (\<lambda>x. key x = ck) (childrenOf s pk))"

definition edgesDistinct :: "engine_state \<Rightarrow> bool" where
  "edgesDistinct s = (\<forall>pk. distinct (map key (childrenOf s pk)))"

definition keysOf :: "engine_state \<Rightarrow> string \<Rightarrow> string set" where
  "keysOf s pk = key ` set (childrenOf s pk)"

definition edgesPending :: "node list \<Rightarrow> engine_state \<Rightarrow> bool" where
  "edgesPending pocket s =
     (edgesDistinct s \<and>
      (\<forall>(p, c)\<in>set (proposalsOf s). trim p \<noteq> [] \<and> trim c \<noteq> [] \<and>
         (normalize c \<in> keysOf s (normalize p) \<or>
          (\<exists>n\<in>set pocket. questionOriginal n = c \<and> parentOriginal n = Some p))))"

definition edgesComplete :: "engine_state \<Rightarrow> bool" where
  "edgesComplete s =
     (edgesDistinct s \<and>
      (\<forall>(p, c)\<in>set (proposalsOf s). normalize c \<in> keysOf s (normalize p)))"

text \<open>The events that are calls of a resolver (knowledge base or web).\<close>

fun resolverCall :: "event \<Rightarrow> bool" where
  "resolverCall (AskedMcp q) = True"
| "resolverCall (AskedWeb q) = True"
| "resolverCall ev = False"

text \<open>Sample providers for concrete runs: a classifier with a fixed verdict, a knowledge
  base with a fixed reply, a search that returns a fixed result list, a completion with a
  fixed text, and no sub-questions or follow-ups.\<close>

definition stubProviders ::
  "bool \<Rightarrow> error + string \<Rightarrow> string option \<Rightarrow> search_result list \<Rightarrow> string \<Rightarrow> providers" where
  "stubProviders quant kb apiKey results synth =
     \<lparr>isQuantifiable = (\<lambda>q. Inr quant),
      decomposeToQuantifiable = (\<lambda>q. Inr []),
      detectFollowupsFromAnswer = (\<lambda>q a. Inr []),
      callAskChatGPT = (\<lambda>q. kb),
      SERPAPI_API_KEY = apiKey,
      fetchSerp = (\<lambda>q. Inr \<lparr>resp_ok = True, resp_json = Inr (Some results)\<rparr>),
      completeFromSnippets = (\<lambda>q rs. Inr (Some synth))\<rparr>"

definition rootNode :: "string \<Rightarrow> node" where
  "rootNode q = \<lparr>questionOriginal = q, parentOriginal = None, depth = 0\<rparr>"

definition twoResults :: "search_result list" where
  "twoResults = [\<lparr>title = ''A'', link = ''https://a.example'', snippet = ''a''\<rparr>,
                 \<lparr>title = ''B'', link = ''https://b.example'', snippet = ''b''\<rparr>]"




text \<open>Providers whose follow-up generator proposes a fixed list, a state in which a key
  has been seen, and a node with a parent.\<close>

definition followupProviders :: "string list \<Rightarrow> providers" where
  "followupProviders fs =
     \<lparr>isQuantifiable = (\<lambda>q. Inr True),
      decomposeToQuantifiable = (\<lambda>q. Inr []),
      detectFollowupsFromAnswer = (\<lambda>q a. Inr fs),
      callAskChatGPT = (\<lambda>q. Inr ''42''),
      SERPAPI_API_KEY = None,
      fetchSerp = (\<lambda>q. Inl ProviderError),
      completeFromSnippets = (\<lambda>q rs. Inl ProviderError)\<rparr>"

definition seenBefore :: engine_state where
  "seenBefore = initialState\<lparr>seen := {''what is b?''}\<rparr>"

definition childNode :: "string \<Rightarrow> string \<Rightarrow> node" where
  "childNode p c = \<lparr>questionOriginal = c, parentOriginal = Some p, depth = 1\<rparr>"

section \<open>Characters and white space\<close>


lemma of_char_lt: "(of_char c :: nat) < 256"
  by (cases c) (simp)











lemma trimmed_trim: "trimmed (trim s)"
proof (cases "trim s = []")
  case True
  then show ?thesis by (simp add: trimmed_def)
next
  case False
  let ?a = "dropWhile isSpace s"
  let ?b = "dropWhile isSpace (rev ?a)"
  from False have b: "?b \<noteq> []" by (simp add: trim_def)
  have a: "?a \<noteq> []"
  proof
    assume "?a = []"
    then have "?b = []" by (simp only: rev.simps dropWhile.simps)
    with b show False by (simp only:)
  qed
  from b have "\<not> isSpace (hd ?b)" by (rule hd_dropWhile)
  then have l: "\<not> isSpace (last (trim s))" using b by (simp add: trim_def last_rev)
  from a have ha: "\<not> isSpace (hd ?a)" by (rule hd_dropWhile)
  from a ha have "\<not> isSpace (last (rev ?a))" by (simp add: last_rev)
  have "hd (rev ?b) = hd ?a"
  proof -
    obtain x xs where ax: "?a = x # xs" using a by (cases ?a) auto
    have "?b = dropWhile isSpace (rev xs @ [x])" by (simp add: ax)
    also have "\<dots> = dropWhile isSpace (rev xs) @ [x] \<or> (\<dots> = [x])"
      using ha ax by (auto simp: dropWhile_append)
    finally have "rev ?b = x # rev (dropWhile isSpace (rev xs)) \<or> rev ?b = [x]" by auto
    then show ?thesis using ax by auto
  qed
  with ha have "\<not> isSpace (hd (trim s))" by (simp add: trim_def)
  with l show ?thesis by (simp add: trimmed_def)
qed

lemma trim_trimmed: "trimmed t \<Longrightarrow> trim t = t"
proof (cases "t = []")
  case True
  then show ?thesis by (simp add: trim_def)
next
  case False
  assume "trimmed t"
  with False have h: "\<not> isSpace (hd t)" and l: "\<not> isSpace (last t)"
    by (simp_all add: trimmed_def)
  from False h have 1: "dropWhile isSpace t = t" by (cases t) auto
  from False l have 2: "dropWhile isSpace (rev t) = rev t"
    by (cases "rev t") (auto simp: last_rev hd_rev [symmetric])
  show ?thesis by (simp add: trim_def 1 2)
qed

lemma collapse_hd: "t \<noteq> [] \<Longrightarrow> \<not> isSpace (hd t) \<Longrightarrow>
    collapseSpaces t \<noteq> [] \<and> hd (collapseSpaces t) = hd t"
  by (cases t) auto







section \<open>The Sources section\<close>








lemma removeSources_id: "\<not> hasSourcesSection t \<Longrightarrow> removeSources t = t"
  by (induction t) auto











section \<open>One resolution task\<close>

lemma newEvents_emit: "newEvents s (emit ev s') = newEvents s s' @ [ev]" if "length (trace s) \<le> length (trace s')"
  using that by (simp add: newEvents_def emit_def)

lemma trace_propose: "propose q d xs s = (nx, s') \<Longrightarrow> trace s' = trace s @ map (Proposed q) (map questionOriginal nx)"
  by (auto simp: propose_def Let_def comp_def)

lemma answered_propose: "propose q d xs s = (nx, s') \<Longrightarrow> answered s' = answered s"
  by (auto simp: propose_def Let_def)

lemma answerQuantifiable_entry:
  "entryOf (snd (answerQuantifiable D P n a src srcs s)) (normalize (questionOriginal n)) =
     Some \<lparr>entryQuestionOriginal = questionOriginal n, quantifiable = True, answer = a,
       source = Some src, sources = srcs, entryParentOriginal = parentOriginal n,
       parentKey = keyOfParent (parentOriginal n)\<rparr>"
  by (auto simp: answerQuantifiable_def Let_def entryOf_def setAnswered_def emit_def update_conv'
      split: sum.splits prod.splits dest: answered_propose)

lemma answerQuantifiable_trace:
  "\<exists>evs. trace (snd (answerQuantifiable D P n a src srcs s)) = trace s @ evs \<and>
     (\<forall>q. AskedWeb q \<notin> set evs \<and> AskedMcp q \<notin> set evs)"
  by (auto simp: answerQuantifiable_def Let_def setAnswered_def emit_def
      split: sum.splits prod.splits dest!: trace_propose)

lemma newEvents_append: "trace s' = trace s @ evs \<Longrightarrow> newEvents s s' = evs"
  by (simp add: newEvents_def)

lemma propose_no_call: "propose q d xs s = (nx, s') \<Longrightarrow> \<exists>evs. trace s' = trace s @ evs \<and> filter resolverCall evs = []"
  by (auto simp: propose_def Let_def)

lemma isMcpNotFound_signal:
  assumes "includesStr (toLowerCase t) ''not available in our current document'' \<or>
       includesStr (toLowerCase t) ''company information file not found'' \<or>
       (\<not> includesStr (toLowerCase t) ''policy file not found'' \<and>
         (includesStr (toLowerCase t) ''no companies found in the knowledge base'' \<or>
          startsWith (toLowerCase t) ''error:''))"
  shows "isMcpNotFound t"
  using assms by (auto simp: isMcpNotFound_def Let_def)

lemma resolveNode_web:
  assumes q: "isQuantifiable P (questionOriginal n) = Inr True"
    and kb: "case callAskChatGPT P (questionOriginal n) of Inl e \<Rightarrow> True | Inr t \<Rightarrow> isMcpNotFound t"
    and web: "answerFromWeb P (questionOriginal n) = Inr web"
  shows "resolveNode D P n s =
     answerQuantifiable D P n
       (if web_ok web then stripSourcesSection (web_text web) else ''No data found.'')
       Web (web_sources web)
       (emit (AskedWeb (questionOriginal n)) (emit (AskedMcp (questionOriginal n))
          (emit (Classified (questionOriginal n)) s)))"
  using kb by (simp add: resolveNode_def Let_def q web split: sum.splits)

lemma answerQuantifiable_trace_ext:
  "\<exists>evs. trace (snd (answerQuantifiable D P n a src srcs s)) = trace s @ evs"
  using answerQuantifiable_trace by blast

lemma answerFromWeb_sources:
  "answerFromWeb P q = Inr web \<Longrightarrow> searchWeb P q 5 = Inr results \<Longrightarrow>
     web_sources web = map link (filter (\<lambda>r. link r \<noteq> []) results) \<and> length results \<le> 5"
  by (auto simp: answerFromWeb_def searchWeb_def split: sum.splits if_splits option.splits)

section \<open>Properties of the normalizer and of the not-found predicate\<close>


text \<open>
  C10: a knowledge-base reply whose lower-cased text contains "policy file not found" and
  neither "not available in our current document" nor "company information file not
  found" is not a not-found signal, whatever else it contains or begins with; for a
  quantifiable question with that reply the task does not call the web resolver and
  stores the trimmed reply with the knowledge base as its source.
\<close>

theorem policy_file_not_found_is_answer:
  assumes "includesStr (toLowerCase t) ''policy file not found''"
    and "\<not> includesStr (toLowerCase t) ''not available in our current document''"
    and "\<not> includesStr (toLowerCase t) ''company information file not found''"
  shows "isMcpNotFound t = False \<and>
     (isQuantifiable P (questionOriginal n) = Inr True \<longrightarrow>
      callAskChatGPT P (questionOriginal n) = Inr t \<longrightarrow>
        AskedWeb (questionOriginal n) \<notin> set (newEvents s (snd (resolveNode D P n s))) \<and>
        map_option source (entryOf (snd (resolveNode D P n s)) (normalize (questionOriginal n))) = Some (Some Mcp) \<and>
        map_option answer (entryOf (snd (resolveNode D P n s)) (normalize (questionOriginal n))) = Some (trim t))"
proof -
  from assms(1) have ne: "t \<noteq> []" by (cases t) (auto simp: toLowerCase_def)
  with assms have nf: "isMcpNotFound t = False" by (simp add: isMcpNotFound_def)
  {
    assume q: "isQuantifiable P (questionOriginal n) = Inr True"
      and kb: "callAskChatGPT P (questionOriginal n) = Inr t"
    let ?s2 = "emit (AskedMcp (questionOriginal n)) (emit (Classified (questionOriginal n)) s)"
    have r: "resolveNode D P n s = answerQuantifiable D P n (trim t) Mcp [] ?s2"
      by (simp add: resolveNode_def Let_def q kb nf)
    obtain evs where evs: "trace (snd (answerQuantifiable D P n (trim t) Mcp [] ?s2)) = trace ?s2 @ evs"
      "\<forall>q. AskedWeb q \<notin> set evs \<and> AskedMcp q \<notin> set evs"
      using answerQuantifiable_trace by blast
    have 1: "AskedWeb (questionOriginal n) \<notin> set (newEvents s (snd (resolveNode D P n s)))"
      using evs by (simp add: r newEvents_def emit_def)
    note 1 answerQuantifiable_entry [of D P n "trim t" Mcp "[]" ?s2]
  }
  with nf show ?thesis by (simp add: resolveNode_def Let_def nf)
qed


theorem policy_file_not_found_witness:
  "startsWith (toLowerCase ''error: Policy file not found. No companies found in the knowledge base'') ''error:'' \<and>
   includesStr (toLowerCase ''error: Policy file not found. No companies found in the knowledge base'')
     ''no companies found in the knowledge base'' \<and>
   isMcpNotFound ''error: Policy file not found. No companies found in the knowledge base'' = False \<and>
   AskedWeb ''q'' \<notin> set (newEvents initialState (snd (resolveNode 1
     (stubProviders True (Inr ''error: Policy file not found. No companies found in the knowledge base'') None [] [])
     (rootNode ''q'') initialState)))"
proof -
  let ?t = "''error: Policy file not found. No companies found in the knowledge base''"
  let ?P = "stubProviders True (Inr ?t) None [] []"
  have h1: "includesStr (toLowerCase ?t) ''policy file not found''" by code_simp
  have h2: "\<not> includesStr (toLowerCase ?t) ''not available in our current document''" by code_simp
  have h3: "\<not> includesStr (toLowerCase ?t) ''company information file not found''" by code_simp
  have e1: "startsWith (toLowerCase ?t) ''error:''" by code_simp
  have e2: "includesStr (toLowerCase ?t) ''no companies found in the knowledge base''" by code_simp
  have q: "isQuantifiable ?P (questionOriginal (rootNode ''q'')) = Inr True"
    by (simp add: stubProviders_def)
  have kb: "callAskChatGPT ?P (questionOriginal (rootNode ''q'')) = Inr ?t"
    by (simp add: stubProviders_def)
  have n: "questionOriginal (rootNode ''q'') = ''q''" by (simp add: rootNode_def)
  from policy_file_not_found_is_answer [OF h1 h2 h3, of ?P "rootNode ''q''" initialState 1] q kb e1 e2
  show ?thesis unfolding n by blast
qed

section \<open>Properties of one resolution task\<close>

text \<open>
  C6: when the classifier reports the question non-quantifiable, the task stores the
  fixed sentinel as the answer, with no source and no source links, and calls neither
  the knowledge-base resolver nor the web resolver.
\<close>

theorem non_quantifiable_short_circuit:
  assumes "isQuantifiable P (questionOriginal n) = Inr False"
  shows "entryOf (snd (resolveNode D P n s)) (normalize (questionOriginal n)) =
      Some \<lparr>entryQuestionOriginal = questionOriginal n, quantifiable = False,
        answer = NOT_ANSWERED, source = None, sources = [],
        entryParentOriginal = parentOriginal n, parentKey = keyOfParent (parentOriginal n)\<rparr> \<and>
    filter resolverCall (newEvents s (snd (resolveNode D P n s))) = []"
proof -
  let ?q = "questionOriginal n"
  let ?s2 = "setAnswered (normalize ?q)
      \<lparr>entryQuestionOriginal = ?q, quantifiable = False,
        answer = NOT_ANSWERED, source = None, sources = [],
        entryParentOriginal = parentOriginal n, parentKey = keyOfParent (parentOriginal n)\<rparr>
      (emit (Classified ?q) s)"
  have e2: "entryOf ?s2 (normalize ?q) = Some \<lparr>entryQuestionOriginal = ?q, quantifiable = False,
        answer = NOT_ANSWERED, source = None, sources = [],
        entryParentOriginal = parentOriginal n, parentKey = keyOfParent (parentOriginal n)\<rparr>"
    by (simp add: entryOf_def setAnswered_def update_conv')
  have t2: "trace ?s2 = trace s @ [Classified ?q, AnsweredSet (normalize ?q)]"
    by (simp add: setAnswered_def emit_def)
  show ?thesis
  proof (cases "depth n < D")
    case False
    then have "resolveNode D P n s = (Inr [], ?s2)"
      by (simp add: resolveNode_def Let_def assms)
    with e2 t2 show ?thesis by (simp add: newEvents_def)
  next
    case True
    let ?s3 = "emit (Decomposed ?q) ?s2"
    show ?thesis
    proof (cases "decomposeToQuantifiable P ?q")
      case (Inl e)
      with True have "resolveNode D P n s = (Inl e, ?s3)"
        by (simp add: resolveNode_def Let_def assms)
      with e2 t2 show ?thesis by (simp add: newEvents_def emit_def entryOf_def)
    next
      case (Inr subs)
      obtain nx s4 where p: "propose ?q (depth n) subs ?s3 = (nx, s4)" by force
      with True Inr have r: "resolveNode D P n s = (Inr nx, s4)"
        by (simp add: resolveNode_def Let_def assms)
      from propose_no_call [OF p] obtain evs where
        evs: "trace s4 = trace ?s3 @ evs" "filter resolverCall evs = []" by blast
      from answered_propose [OF p] have "answered s4 = answered ?s2" by (simp add: emit_def)
      with e2 have "entryOf s4 (normalize ?q) = Some \<lparr>entryQuestionOriginal = ?q, quantifiable = False,
        answer = NOT_ANSWERED, source = None, sources = [],
        entryParentOriginal = parentOriginal n, parentKey = keyOfParent (parentOriginal n)\<rparr>"
        by (simp add: entryOf_def)
      moreover from evs t2 have "newEvents s s4 = [Classified ?q, AnsweredSet (normalize ?q), Decomposed ?q] @ evs"
        by (simp add: newEvents_def emit_def)
      ultimately show ?thesis using evs(2) by (simp add: r)
    qed
  qed
qed

theorem non_quantifiable_witness:
  "isQuantifiable (stubProviders False (Inr ''unused'') None [] []) (questionOriginal (rootNode ''Why do people like blue?''))
     = Inr False \<and>
   map_option answer (entryOf (snd (resolveNode 1 (stubProviders False (Inr ''unused'') None [] [])
      (rootNode ''Why do people like blue?'') initialState)) (normalize ''Why do people like blue?''))
     = Some NOT_ANSWERED \<and>
   filter resolverCall (newEvents initialState (snd (resolveNode 1 (stubProviders False (Inr ''unused'') None [] [])
      (rootNode ''Why do people like blue?'') initialState))) = []"
proof -
  let ?P = "stubProviders False (Inr ''unused'') None [] []"
  let ?n = "rootNode ''Why do people like blue?''"
  have q: "isQuantifiable ?P (questionOriginal ?n) = Inr False" by (simp add: stubProviders_def)
  have n: "questionOriginal ?n = ''Why do people like blue?''" by (simp add: rootNode_def)
  from non_quantifiable_short_circuit [OF q, of 1 initialState] q show ?thesis
    unfolding n by simp
qed


text \<open>
  C2, as the code has it: for a quantifiable question whose knowledge-base call fails, or
  whose reply contains "not available in our current document" or "company information
  file not found", or, when it does not contain "policy file not found", contains
  "no companies found in the knowledge base" or begins with "error:" (all in any letter
  case), the task calls the web resolver; when that one returns, the stored entry has the
  web as its source and the non-empty links of the search results, in order, as its
  source links.
\<close>

theorem fallback_chain:
  assumes q: "isQuantifiable P (questionOriginal n) = Inr True"
    and kb: "(\<exists>e. callAskChatGPT P (questionOriginal n) = Inl e) \<or>
       (\<exists>t. callAskChatGPT P (questionOriginal n) = Inr t \<and>
         (includesStr (toLowerCase t) ''not available in our current document'' \<or>
          includesStr (toLowerCase t) ''company information file not found'' \<or>
          (\<not> includesStr (toLowerCase t) ''policy file not found'' \<and>
            (includesStr (toLowerCase t) ''no companies found in the knowledge base'' \<or>
             startsWith (toLowerCase t) ''error:''))))"
    and sw: "searchWeb P (questionOriginal n) 5 = Inr results"
    and web: "answerFromWeb P (questionOriginal n) = Inr web"
  shows "AskedWeb (questionOriginal n) \<in> set (newEvents s (snd (resolveNode D P n s))) \<and>
    map_option source (entryOf (snd (resolveNode D P n s)) (normalize (questionOriginal n)))
      = Some (Some Web) \<and>
    map_option sources (entryOf (snd (resolveNode D P n s)) (normalize (questionOriginal n)))
      = Some (map link (filter (\<lambda>r. link r \<noteq> []) results))"
proof -
  let ?q = "questionOriginal n"
  let ?s3 = "emit (AskedWeb ?q) (emit (AskedMcp ?q) (emit (Classified ?q) s))"
  let ?a = "if web_ok web then stripSourcesSection (web_text web) else ''No data found.''"
  from kb have kb': "case callAskChatGPT P ?q of Inl e \<Rightarrow> True | Inr t \<Rightarrow> isMcpNotFound t"
    by (auto intro: isMcpNotFound_signal)
  have r: "resolveNode D P n s = answerQuantifiable D P n ?a Web (web_sources web) ?s3"
    by (rule resolveNode_web [OF q kb' web])
  obtain evs where "trace (snd (answerQuantifiable D P n ?a Web (web_sources web) ?s3)) = trace ?s3 @ evs"
    using answerQuantifiable_trace_ext by blast
  then have 1: "AskedWeb ?q \<in> set (newEvents s (snd (resolveNode D P n s)))"
    by (simp add: r newEvents_def emit_def)
  from answerFromWeb_sources [OF web sw]
  have 2: "web_sources web = map link (filter (\<lambda>r. link r \<noteq> []) results)" by simp
  from 1 2 answerQuantifiable_entry [of D P n ?a Web "web_sources web" ?s3]
  show ?thesis by (simp add: r)
qed

theorem fallback_chain_witness:
  "map_option sources (entryOf (snd (resolveNode 1
      (stubProviders True (Inr ''Not available in our current documents.'') (Some ''k'') twoResults ''From the web.'')
      (rootNode ''q'') initialState)) (normalize ''q''))
     = Some [''https://a.example'', ''https://b.example''] \<and>
   map_option source (entryOf (snd (resolveNode 1
      (stubProviders True (Inr ''Not available in our current documents.'') (Some ''k'') twoResults ''From the web.'')
      (rootNode ''q'') initialState)) (normalize ''q''))
     = Some (Some Web)"
proof -
  let ?t = "''Not available in our current documents.''"
  let ?P = "stubProviders True (Inr ?t) (Some ''k'') twoResults ''From the web.''"
  let ?n = "rootNode ''q''"
  have n: "questionOriginal ?n = ''q''" by (simp add: rootNode_def)
  have q: "isQuantifiable ?P (questionOriginal ?n) = Inr True" by (simp add: stubProviders_def)
  have inc: "includesStr (toLowerCase ?t) ''not available in our current document''" by code_simp
  have kb: "(\<exists>e. callAskChatGPT ?P (questionOriginal ?n) = Inl e) \<or>
       (\<exists>t. callAskChatGPT ?P (questionOriginal ?n) = Inr t \<and>
         (includesStr (toLowerCase t) ''not available in our current document'' \<or>
          includesStr (toLowerCase t) ''company information file not found'' \<or>
          (\<not> includesStr (toLowerCase t) ''policy file not found'' \<and>
            (includesStr (toLowerCase t) ''no companies found in the knowledge base'' \<or>
             startsWith (toLowerCase t) ''error:''))))"
    using inc by (simp add: stubProviders_def)
  have sw: "searchWeb ?P (questionOriginal ?n) 5 = Inr twoResults"
    by (simp add: searchWeb_def stubProviders_def twoResults_def)
  have web: "answerFromWeb ?P (questionOriginal ?n) =
      Inr \<lparr>web_ok = True, web_text = trim ''From the web.'',
           web_sources = [''https://a.example'', ''https://b.example'']\<rparr>"
    using sw by (simp add: answerFromWeb_def n) (simp add: stubProviders_def twoResults_def)
  from fallback_chain [OF q kb sw web, where D = 1 and s = initialState]
  show ?thesis unfolding n by (simp add: twoResults_def)
qed

text \<open>
  A reply that contains the third not-found pattern after "policy file not found" is kept
  as the answer: the entry's source is the knowledge base and the web is never asked.
\<close>

theorem fallback_chain_counterexample:
  "includesStr (toLowerCase ''Policy file not found. No companies found in the knowledge base.'')
      ''no companies found in the knowledge base'' \<and>
   isQuantifiable (stubProviders True (Inr ''Policy file not found. No companies found in the knowledge base.'')
      (Some ''k'') twoResults ''From the web.'') ''q'' = Inr True \<and>
   map_option source (entryOf (snd (resolveNode 1
      (stubProviders True (Inr ''Policy file not found. No companies found in the knowledge base.'')
         (Some ''k'') twoResults ''From the web.'')
      (rootNode ''q'') initialState)) (normalize ''q''))
     = Some (Some Mcp) \<and>
   AskedWeb ''q'' \<notin> set (trace (snd (resolveNode 1
      (stubProviders True (Inr ''Policy file not found. No companies found in the knowledge base.'')
         (Some ''k'') twoResults ''From the web.'')
      (rootNode ''q'') initialState)))"
  by code_simp






section \<open>Properties of auditAndPolish\<close>






section \<open>The frontier loop\<close>

text \<open>
  A proof rule for the loop: a property \<open>I\<close> of pocket and state that every completed
  round re-establishes gives \<open>Q\<close> for the outcome, once \<open>Q\<close> is shown at each of the
  three exits (empty pocket, empty unique pocket, rejection).
\<close>

lemma engineLoop_rule:
  assumes init: "I pocket s"
    and fin: "\<And>s. I [] s \<Longrightarrow> Q None s"
    and brk: "\<And>pocket s s1. I pocket s \<Longrightarrow> pocket \<noteq> [] \<Longrightarrow>
        dedupPass pocket (s\<lparr>rounds := Suc (rounds s)\<rparr>) = ([], s1) \<Longrightarrow> Q None s1"
    and err: "\<And>pocket s u s1 e s2. I pocket s \<Longrightarrow> pocket \<noteq> [] \<Longrightarrow>
        dedupPass pocket (s\<lparr>rounds := Suc (rounds s)\<rparr>) = (u, s1) \<Longrightarrow> u \<noteq> [] \<Longrightarrow>
        answerAll D P u s1 = (Inl e, s2) \<Longrightarrow> Q (Some e) s2"
    and cont: "\<And>pocket s u s1 results s2. I pocket s \<Longrightarrow> pocket \<noteq> [] \<Longrightarrow>
        dedupPass pocket (s\<lparr>rounds := Suc (rounds s)\<rparr>) = (u, s1) \<Longrightarrow> u \<noteq> [] \<Longrightarrow>
        answerAll D P u s1 = (Inr results, s2) \<Longrightarrow> I (concat results) s2"
  shows "Q (fst (engineLoop D P pocket s)) (snd (engineLoop D P pocket s))"
  using assms
proof (induction D P pocket s rule: engineLoop.induct)
  case (1 D P pocket s)
  note I = "1.prems"(1) and fin = "1.prems"(2) and brk = "1.prems"(3)
    and err = "1.prems"(4) and cont = "1.prems"(5)
  show ?case
  proof (cases "pocket = []")
    case True
    then have "engineLoop D P pocket s = (None, s)" by (simp add: engineLoop.simps)
    with fin I True show ?thesis by simp
  next
    case False
    obtain u s1 where dd: "dedupPass pocket (s\<lparr>rounds := Suc (rounds s)\<rparr>) = (u, s1)" by force
    show ?thesis
    proof (cases "u = []")
      case True
      with False dd have "engineLoop D P pocket s = (None, s1)"
        by (simp add: engineLoop.simps [of D P pocket s])
      with brk [OF I False] dd True show ?thesis by simp
    next
      case ne: False
      obtain r s2 where aa: "answerAll D P u s1 = (r, s2)" by force
      show ?thesis
      proof (cases r)
        case (Inl e)
        with False dd ne aa have "engineLoop D P pocket s = (Some e, s2)"
          by (simp add: engineLoop.simps [of D P pocket s])
        with err [OF I False dd ne] aa Inl show ?thesis by simp
      next
        case (Inr results)
        with False dd ne aa have e: "engineLoop D P pocket s = engineLoop D P (concat results) s2"
          by (simp add: engineLoop.simps [of D P pocket s])
        have I': "I (concat results) s2" using cont [OF I False dd ne] aa Inr by simp
        from "1.IH" [OF False dd [symmetric] ne aa [symmetric] Inr I' fin brk err cont]
        show ?thesis by (simp add: e)
      qed
    qed
  qed
qed

lemma addChild_frame:
  "rounds (addChild pk ck co s) = rounds s \<and> seen (addChild pk ck co s) = seen s \<and>
   answered (addChild pk ck co s) = answered s \<and> trace (addChild pk ck co s) = trace s"
  by (simp add: addChild_def Let_def split: option.splits)

lemma dedupPass_frame:
  "dedupPass pocket s = (u, s') \<Longrightarrow>
     rounds s' = rounds s \<and> answered s' = answered s \<and> trace s' = trace s"
proof (induction pocket arbitrary: s u)
  case Nil
  then show ?case by simp
next
  case (Cons n pocket)
  then show ?case
    by (auto simp: Let_def addChild_frame split: if_splits prod.splits option.splits)
qed

lemma answerQuantifiable_frame':
  "rounds (snd (answerQuantifiable D P n a src srcs s)) = rounds s \<and>
   seen (snd (answerQuantifiable D P n a src srcs s)) = seen s \<and>
   children (snd (answerQuantifiable D P n a src srcs s)) = children s"
  by (simp add: answerQuantifiable_def Let_def setAnswered_def emit_def propose_def
      split: sum.splits)

lemma resolveNode_frame':
  "rounds (snd (resolveNode D P n s)) = rounds s \<and>
   seen (snd (resolveNode D P n s)) = seen s \<and>
   children (snd (resolveNode D P n s)) = children s"
  by (simp add: resolveNode_def Let_def setAnswered_def emit_def propose_def
      answerQuantifiable_frame' split: sum.splits bool.splits option.splits)

lemma resolveNode_frame:
  "resolveNode D P n s = (r, s') \<Longrightarrow>
     rounds s' = rounds s \<and> seen s' = seen s \<and> children s' = children s"
  using resolveNode_frame' [of D P n s] by simp

lemma answerAll_frame:
  "answerAll D P ns s = (r, s') \<Longrightarrow>
     rounds s' = rounds s \<and> seen s' = seen s \<and> children s' = children s"
proof (induction ns arbitrary: s r s')
  case Nil
  then show ?case by simp
next
  case (Cons n ns)
  obtain r1 s1 where r1: "resolveNode D P n s = (r1, s1)" by force
  note f1 = resolveNode_frame [OF r1]
  show ?case
  proof (cases r1)
    case (Inl e)
    with Cons.prems r1 f1 show ?thesis by simp
  next
    case (Inr nx)
    obtain r2 s2 where r2: "answerAll D P ns s1 = (r2, s2)" by force
    from Cons.prems r1 Inr r2 have "s' = s2" by (cases r2) auto
    with Cons.IH [OF r2] f1 show ?thesis by simp
  qed
qed

lemma rank_Nil: "rank D [] = 0"
  by (simp add: rank_def)

lemma rank_pos: "pocket \<noteq> [] \<Longrightarrow> 0 < rank D pocket"
  using rank_ge [of "hd pocket" pocket D] by (cases pocket) auto

lemma rounds_bound:
  "rounds (snd (engineLoop D P pocket s)) \<le> rounds s + rank D pocket"
proof -
  define B where "B = rounds s + rank D pocket"
  have "(\<lambda>r s'. rounds s' \<le> B) (fst (engineLoop D P pocket s)) (snd (engineLoop D P pocket s))"
  proof (rule engineLoop_rule [where I = "\<lambda>pocket s. rounds s + rank D pocket \<le> B"])
    show "rounds s + rank D pocket \<le> B" by (simp add: B_def)
  next
    fix s :: engine_state assume "rounds s + rank D [] \<le> B"
    then show "rounds s \<le> B" by simp
  next
    fix pocket and s s1 :: engine_state
    assume I: "rounds s + rank D pocket \<le> B" and ne: "pocket \<noteq> []"
      and dd: "dedupPass pocket (s\<lparr>rounds := Suc (rounds s)\<rparr>) = ([], s1)"
    from dedupPass_frame [OF dd] have "rounds s1 = Suc (rounds s)" by simp
    with I rank_pos [OF ne, of D] show "rounds s1 \<le> B" by simp
  next
    fix pocket u e and s s1 s2 :: engine_state
    assume I: "rounds s + rank D pocket \<le> B" and ne: "pocket \<noteq> []"
      and dd: "dedupPass pocket (s\<lparr>rounds := Suc (rounds s)\<rparr>) = (u, s1)"
      and aa: "answerAll D P u s1 = (Inl e, s2)"
    from dedupPass_frame [OF dd] answerAll_frame [OF aa] have "rounds s2 = Suc (rounds s)" by simp
    with I rank_pos [OF ne, of D] show "rounds s2 \<le> B" by simp
  next
    fix pocket u results and s s1 s2 :: engine_state
    assume I: "rounds s + rank D pocket \<le> B" and ne: "pocket \<noteq> []"
      and dd: "dedupPass pocket (s\<lparr>rounds := Suc (rounds s)\<rparr>) = (u, s1)"
      and aa: "answerAll D P u s1 = (Inr results, s2)"
    from dedupPass_frame [OF dd] answerAll_frame [OF aa] have r: "rounds s2 = Suc (rounds s)" by simp
    have "rank D (concat results) < rank D pocket"
    proof (rule rank_less [OF ne])
      fix m assume m: "m \<in> set (concat results)"
      from answerAll_depth [OF aa m]
      obtain v where v: "v \<in> set u" "depth m = Suc (depth v)" "depth v < D" by blast
      from dedupPass_depth [OF dd v(1)] obtain n where "n \<in> set pocket" "depth v = depth n" by blast
      with v show "\<exists>n\<in>set pocket. depth m = Suc (depth n) \<and> depth n < D" by auto
    qed
    with I r show "rounds s2 + rank D (concat results) \<le> B" by simp
  qed
  then show ?thesis by (simp add: B_def)
qed

text \<open>
  C4: with \<^verbatim>\<open>MAX_DEPTH = d\<close> the body of the frontier loop is entered at most
  \<open>d + 1\<close> times, whatever the providers propose: a node of the next pocket is one deeper
  than a node of the current one, and a node at depth \<open>d\<close> or more is not expanded.
\<close>

theorem frontier_loop_round_bound:
  "rounds (snd (engineLoop D P (rootPocket q) initialState)) \<le> D + 1"
proof -
  have "rank D (rootPocket q) = Suc D" by (simp add: rank_def rootPocket_def)
  with rounds_bound [of D P "rootPocket q" initialState] show ?thesis
    by (simp add: initialState_def)
qed


section \<open>Write-once\<close>

lemma seen_addChild: "seen (addChild pk ck co s) = seen s"
  by (simp add: addChild_frame)

lemma dedupPass_keys:
  "dedupPass pocket s = (u, s') \<Longrightarrow>
     distinct (map nodeKey u) \<and> set (map nodeKey u) \<inter> seen s = {} \<and>
     seen s' = seen s \<union> set (map nodeKey u)"
proof (induction pocket arbitrary: s u s')
  case Nil
  then show ?case by simp
next
  case (Cons n pocket)
  let ?q = "trim (questionOriginal n)"
  show ?case
  proof (cases "?q = []")
    case True
    with Cons.prems have "dedupPass pocket s = (u, s')" by simp
    then show ?thesis by (rule Cons.IH)
  next
    case False
    let ?po = "case parentOriginal n of None \<Rightarrow> None
                | Some p \<Rightarrow> if p = [] then None else Some (trim p)"
    let ?s1 = "case keyOfParent ?po of None \<Rightarrow> s
                | Some pk \<Rightarrow> if pk = [] then s else addChild (keyOfParent ?po) (normalize ?q) ?q s"
    have s1: "seen ?s1 = seen s" by (simp add: seen_addChild split: option.splits)
    show ?thesis
    proof (cases "normalize ?q \<in> seen s")
      case True
      with False Cons.prems s1 have "dedupPass pocket ?s1 = (u, s')" by (simp add: Let_def)
      from Cons.IH [OF this] s1 show ?thesis by simp
    next
      case nin: False
      obtain u' s2 where r: "dedupPass pocket (?s1\<lparr>seen := insert (normalize ?q) (seen ?s1)\<rparr>) = (u', s2)"
        by force
      with False nin Cons.prems s1
      have u: "u = \<lparr>questionOriginal = ?q, parentOriginal = ?po, depth = depth n\<rparr> # u'" and s': "s' = s2"
        by (simp_all add: Let_def)
      from Cons.IH [OF r] s1 nin show ?thesis
        by (auto simp: u s' nodeKey_def)
    qed
  qed
qed

lemma writes_emit: "writes (emit ev s) = writes s @ writtenKey ev"
  by (simp add: writes_def emit_def)

lemma writes_Proposed: "concat (map writtenKey (map (Proposed q) qs)) = []"
  by (induction qs) auto

lemma answerQuantifiable_writes:
  assumes "nodeKey n \<notin> set (map fst (answered s))"
  shows "writes (snd (answerQuantifiable D P n a src srcs s)) = writes s @ [nodeKey n] \<and>
     map fst (answered (snd (answerQuantifiable D P n a src srcs s))) =
       map fst (answered s) @ [nodeKey n]"
  using assms
  by (simp add: answerQuantifiable_def Let_def setAnswered_def emit_def
      propose_def writes_def writes_Proposed update_keys nodeKey_def split: sum.splits)

lemma answered_emit: "answered (emit ev s) = answered s"
  by (simp add: emit_def)

lemma writes_emit_call:
  "writes (emit (Classified q) s) = writes s" "writes (emit (AskedMcp q) s) = writes s"
  "writes (emit (AskedWeb q) s) = writes s" "writes (emit (Decomposed q) s) = writes s"
  by (simp_all add: writes_emit)

lemma resolveNode_writes:
  assumes "nodeKey n \<notin> set (map fst (answered s))"
  shows "\<exists>ws. (ws = [] \<or> ws = [nodeKey n]) \<and>
     ((\<exists>nx. fst (resolveNode D P n s) = Inr nx) \<longrightarrow> ws = [nodeKey n]) \<and>
     writes (snd (resolveNode D P n s)) = writes s @ ws \<and>
     map fst (answered (snd (resolveNode D P n s))) = map fst (answered s) @ ws"
proof (cases "isQuantifiable P (questionOriginal n)")
  case (Inl e)
  then show ?thesis by (simp add: resolveNode_def Let_def writes_emit_call answered_emit)
next
  case (Inr b)
  show ?thesis
  proof (cases b)
    case False
    with Inr assms show ?thesis
      by (simp add: resolveNode_def Let_def setAnswered_def emit_def
          propose_def writes_def writes_Proposed update_keys nodeKey_def split: sum.splits)
  next
    case True
    let ?q = "questionOriginal n"
    let ?s2 = "emit (AskedMcp ?q) (emit (Classified ?q) s)"
    let ?s3 = "emit (AskedWeb ?q) ?s2"
    have k2: "nodeKey n \<notin> set (map fst (answered ?s2))" "nodeKey n \<notin> set (map fst (answered ?s3))"
      using assms by (simp_all add: answered_emit)
    have w: "writes ?s2 = writes s" "writes ?s3 = writes s" "answered ?s2 = answered s"
      "answered ?s3 = answered s"
      by (simp_all add: writes_emit_call answered_emit)
    note aq = answerQuantifiable_writes [OF k2(1)] answerQuantifiable_writes [OF k2(2)]
    from Inr True show ?thesis
      by (simp add: resolveNode_def Let_def aq w split: sum.splits option.splits)
  qed
qed

lemma answerAll_writes:
  "distinct (map nodeKey ns) \<Longrightarrow> set (map nodeKey ns) \<inter> set (map fst (answered s)) = {} \<Longrightarrow>
   \<exists>ws. set ws \<subseteq> set (map nodeKey ns) \<and> distinct ws \<and>
     ((\<exists>rs. fst (answerAll D P ns s) = Inr rs) \<longrightarrow> set ws = set (map nodeKey ns)) \<and>
     writes (snd (answerAll D P ns s)) = writes s @ ws \<and>
     map fst (answered (snd (answerAll D P ns s))) = map fst (answered s) @ ws"
proof (induction ns arbitrary: s)
  case Nil
  then show ?case by simp
next
  case (Cons n ns)
  from Cons.prems have k: "nodeKey n \<notin> set (map fst (answered s))" by auto
  obtain r1 s1 where r1: "resolveNode D P n s = (r1, s1)" by force
  from resolveNode_writes [OF k, of D P] r1 obtain ws1 where
    ws1: "ws1 = [] \<or> ws1 = [nodeKey n]" "(\<exists>nx. r1 = Inr nx) \<longrightarrow> ws1 = [nodeKey n]"
      "writes s1 = writes s @ ws1" "map fst (answered s1) = map fst (answered s) @ ws1"
    by auto
  show ?case
  proof (cases r1)
    case (Inl e)
    with r1 have "answerAll D P (n # ns) s = (Inl e, s1)" by simp
    with ws1 show ?thesis by (intro exI [of _ ws1]) auto
  next
    case (Inr nx)
    with ws1 have w1: "ws1 = [nodeKey n]" by simp
    from Cons.prems have d: "distinct (map nodeKey ns)" by simp
    from Cons.prems w1 ws1(4)
    have disj: "set (map nodeKey ns) \<inter> set (map fst (answered s1)) = {}" by auto
    obtain r2 s2 where r2: "answerAll D P ns s1 = (r2, s2)" by force
    from Cons.IH [OF d disj] r2 obtain ws2 where
      ws2: "set ws2 \<subseteq> set (map nodeKey ns)" "distinct ws2"
        "(\<exists>rs. r2 = Inr rs) \<longrightarrow> set ws2 = set (map nodeKey ns)"
        "writes s2 = writes s1 @ ws2" "map fst (answered s2) = map fst (answered s1) @ ws2"
      by auto
    have e: "fst (answerAll D P (n # ns) s) = (case r2 of Inl e \<Rightarrow> Inl e | Inr rs \<Rightarrow> Inr (nx # rs))"
      "snd (answerAll D P (n # ns) s) = s2"
      using r1 Inr r2 by (simp_all split: sum.splits)
    from Cons.prems ws2(1) have nin: "nodeKey n \<notin> set ws2" by auto
    show ?thesis
    proof (intro exI [of _ "nodeKey n # ws2"] conjI)
      show "set (nodeKey n # ws2) \<subseteq> set (map nodeKey (n # ns))" using ws2(1) by auto
      show "distinct (nodeKey n # ws2)" using nin ws2(2) by simp
      show "(\<exists>rs. fst (answerAll D P (n # ns) s) = Inr rs) \<longrightarrow>
          set (nodeKey n # ws2) = set (map nodeKey (n # ns))"
        using ws2(3) unfolding e by (cases r2) auto
      show "writes (snd (answerAll D P (n # ns) s)) = writes s @ nodeKey n # ws2"
        unfolding e by (simp add: ws2 ws1 w1)
      show "map fst (answered (snd (answerAll D P (n # ns) s))) = map fst (answered s) @ nodeKey n # ws2"
        unfolding e by (simp add: ws2 ws1 w1)
    qed
  qed
qed

lemma loop_writes:
  assumes "writeOnce s" and "set (writes s) = seen s"
  shows "writeOnce (snd (engineLoop D P pocket s)) \<and>
    set (writes (snd (engineLoop D P pocket s))) \<subseteq> seen (snd (engineLoop D P pocket s)) \<and>
    (fst (engineLoop D P pocket s) = None \<longrightarrow>
       set (writes (snd (engineLoop D P pocket s))) = seen (snd (engineLoop D P pocket s)))"
proof (rule engineLoop_rule [where I = "\<lambda>pocket s. writeOnce s \<and> set (writes s) = seen s"
      and Q = "\<lambda>r s. writeOnce s \<and> set (writes s) \<subseteq> seen s \<and> (r = None \<longrightarrow> set (writes s) = seen s)"])
  show "writeOnce s \<and> set (writes s) = seen s" using assms by simp
next
  fix s :: engine_state
  assume "writeOnce s \<and> set (writes s) = seen s"
  then show "writeOnce s \<and> set (writes s) \<subseteq> seen s \<and> (None = None \<longrightarrow> set (writes s) = seen s)"
    by simp
next
  fix pocket and s s1 :: engine_state
  assume I: "writeOnce s \<and> set (writes s) = seen s"
    and dd: "dedupPass pocket (s\<lparr>rounds := Suc (rounds s)\<rparr>) = ([], s1)"
  from dedupPass_frame [OF dd] dedupPass_keys [OF dd] I
  show "writeOnce s1 \<and> set (writes s1) \<subseteq> seen s1 \<and> (None = None \<longrightarrow> set (writes s1) = seen s1)"
    by (simp add: writeOnce_def writes_def)
next
  fix pocket u e and s s1 s2 :: engine_state
  assume I: "writeOnce s \<and> set (writes s) = seen s"
    and dd: "dedupPass pocket (s\<lparr>rounds := Suc (rounds s)\<rparr>) = (u, s1)"
    and aa: "answerAll D P u s1 = (Inl e, s2)"
  from dedupPass_frame [OF dd] I have w1: "writeOnce s1" "writes s1 = writes s"
    by (simp_all add: writeOnce_def writes_def)
  from dedupPass_keys [OF dd] I have k: "distinct (map nodeKey u)"
    "set (map nodeKey u) \<inter> set (writes s) = {}" "seen s1 = seen s \<union> set (map nodeKey u)"
    by simp_all
  from k(2) w1 have disj: "set (map nodeKey u) \<inter> set (map fst (answered s1)) = {}"
    by (simp add: writeOnce_def)
  from answerAll_writes [OF k(1) disj, of D P] aa obtain ws where
    ws: "set ws \<subseteq> set (map nodeKey u)" "distinct ws" "writes s2 = writes s1 @ ws"
      "map fst (answered s2) = map fst (answered s1) @ ws" by auto
  from answerAll_frame [OF aa] have "seen s2 = seen s1" by simp
  with ws w1 k I
  show "writeOnce s2 \<and> set (writes s2) \<subseteq> seen s2 \<and> (Some e = None \<longrightarrow> set (writes s2) = seen s2)"
    by (auto simp: writeOnce_def)
next
  fix pocket u results and s s1 s2 :: engine_state
  assume I: "writeOnce s \<and> set (writes s) = seen s"
    and dd: "dedupPass pocket (s\<lparr>rounds := Suc (rounds s)\<rparr>) = (u, s1)"
    and aa: "answerAll D P u s1 = (Inr results, s2)"
  from dedupPass_frame [OF dd] I have w1: "writeOnce s1" "writes s1 = writes s"
    by (simp_all add: writeOnce_def writes_def)
  from dedupPass_keys [OF dd] I have k: "distinct (map nodeKey u)"
    "set (map nodeKey u) \<inter> set (writes s) = {}" "seen s1 = seen s \<union> set (map nodeKey u)"
    by simp_all
  from k(2) w1 have disj: "set (map nodeKey u) \<inter> set (map fst (answered s1)) = {}"
    by (simp add: writeOnce_def)
  from answerAll_writes [OF k(1) disj, of D P] aa obtain ws where
    ws: "set ws = set (map nodeKey u)" "distinct ws" "writes s2 = writes s1 @ ws"
      "map fst (answered s2) = map fst (answered s1) @ ws" by auto
  from answerAll_frame [OF aa] have "seen s2 = seen s1" by simp
  with ws w1 k I
  show "writeOnce s2 \<and> set (writes s2) = seen s2"
    by (auto simp: writeOnce_def)
qed

text \<open>
  C3: in every run, also one that ends in a rejection, \<^verbatim>\<open>answered.set\<close> is called
  at most once for each normalized key, so an entry, once stored, is never overwritten:
  the keys of \<open>answered\<close> in insertion order are exactly the keys written.
\<close>

theorem answered_write_once:
  "distinct (writes (snd (engineLoop D P (rootPocket q) initialState))) \<and>
   map fst (answered (snd (engineLoop D P (rootPocket q) initialState))) =
     writes (snd (engineLoop D P (rootPocket q) initialState))"
proof -
  have "writeOnce initialState" "set (writes initialState) = seen initialState"
    by (simp_all add: writeOnce_def writes_def initialState_def)
  from loop_writes [OF this, of D P "rootPocket q"] show ?thesis
    by (simp add: writeOnce_def)
qed


section \<open>The outcome of a run\<close>






lemma trim_idem: "trim (trim x) = trim x"
  by (intro trim_trimmed trimmed_trim)

lemma trim_Nil: "trim [] = []"
  by (simp add: trim_def)









text \<open>
  A follow-up that repeats the root question puts an edge from the root's key to itself
  into the table. \<^verbatim>\<open>render\<close> then recurses without end: whatever the stack
  allows, the run is rejected.
\<close>

lemma render_cycle:
  assumes "childrenOf s k0 = [c]" and "normalize (childQuestionOriginal c) = k0"
  shows "normalize q = k0 \<Longrightarrow> render n s q i = None"
  by (induction n arbitrary: q i) (simp_all add: assms)

lemma self_edge_overflows:
  "answerWithAgent 1 stack (followupProviders [''Q'']) (userChat ''q'') = Rejected RangeError"
proof -
  let ?run = "engineLoop 1 (followupProviders [''Q'']) (rootPocket ''q'') initialState"
  have x: "extractLatestUserQuestion (userChat ''q'') = ''q''" by code_simp
  have t: "trim ''q'' = ''q''" by code_simp
  have a: "fst ?run = None" by code_simp
  have c: "childrenOf (snd ?run) ''q'' = [\<lparr>key = ''q'', childQuestionOriginal = ''Q''\<rparr>]"
    by code_simp
  have k: "normalize (childQuestionOriginal \<lparr>key = ''q'', childQuestionOriginal = ''Q''\<rparr>) = ''q''"
    "normalize ''q'' = ''q''" by code_simp+
  from render_cycle [OF c k] have "render stack (snd ?run) ''q'' 0 = None" .
  moreover obtain r s' where "?run = (r, s')" by force
  ultimately show ?thesis using a by (simp add: answerWithAgent_def Let_def x t)
qed

section \<open>The edge table\<close>

lemma childrenOf_addChild:
  "pk \<noteq> [] \<Longrightarrow> childrenOf (addChild (Some pk) ck co s) pk' =
     (if pk' = pk then
        (if ck \<in> keysOf s pk then childrenOf s pk
         else childrenOf s pk @ [\<lparr>key = ck, childQuestionOriginal = co\<rparr>])
      else childrenOf s pk')"
  by (auto simp: addChild_def childrenOf_def keysOf_def Let_def update_conv' list_ex_iff
      split: option.splits)

lemma addChild_edges:
  assumes "pk \<noteq> []" and "edgesDistinct s"
  shows "edgesDistinct (addChild (Some pk) ck co s) \<and>
     (\<forall>pk'. keysOf s pk' \<subseteq> keysOf (addChild (Some pk) ck co s) pk') \<and>
     ck \<in> keysOf (addChild (Some pk) ck co s) pk"
  using assms
  by (auto simp: edgesDistinct_def keysOf_def childrenOf_addChild)

lemma childrenOf_seen: "childrenOf (s\<lparr>seen := X\<rparr>) pk = childrenOf s pk"
  by (simp add: childrenOf_def)

lemma childrenOf_rounds: "childrenOf (s\<lparr>rounds := X\<rparr>) pk = childrenOf s pk"
  by (simp add: childrenOf_def)

lemma normalize_trim: "normalize (trim x) = normalize x"
  by (simp add: normalize_def trim_idem)

lemma normalize_nonempty: "trim p \<noteq> [] \<Longrightarrow> normalize p \<noteq> []"
proof -
  assume ne: "trim p \<noteq> []"
  have "trimmed (trim p)" by (rule trimmed_trim)
  with ne have "\<not> isSpace (hd (trim p))" by (simp add: trimmed_def)
  from collapse_hd [OF ne this] show ?thesis by (simp add: normalize_def toLowerCase_def)
qed


lemma dedup_step_edges:
  assumes d: "edgesDistinct s" and q: "trim (questionOriginal n) \<noteq> []"
  defines "po \<equiv> (case parentOriginal n of None \<Rightarrow> None
                | Some p \<Rightarrow> if p = [] then None else Some (trim p))"
  defines "s1 \<equiv> (case keyOfParent po of None \<Rightarrow> s
                | Some pk \<Rightarrow> if pk = [] then s
                    else addChild (keyOfParent po) (normalize (trim (questionOriginal n)))
                           (trim (questionOriginal n)) s)"
  shows "edgesDistinct s1 \<and> (\<forall>pk. keysOf s pk \<subseteq> keysOf s1 pk) \<and>
     (\<forall>p. parentOriginal n = Some p \<longrightarrow> trim p \<noteq> [] \<longrightarrow>
        normalize (questionOriginal n) \<in> keysOf s1 (normalize p))"
proof (cases "parentOriginal n")
  case None
  then have "s1 = s" by (simp add: s1_def po_def keyOfParent_def)
  with d None show ?thesis by simp
next
  case (Some p)
  show ?thesis
  proof (cases "trim p = []")
    case True
    then have "s1 = s" using Some by (simp add: s1_def po_def keyOfParent_def)
    with d Some True show ?thesis by simp
  next
    case False
    then have pne: "p \<noteq> []" by (auto simp: trim_Nil)
    from False have kne: "normalize p \<noteq> []" by (rule normalize_nonempty)
    from Some pne False have "keyOfParent po = Some (normalize p)"
      by (simp add: po_def keyOfParent_def normalize_trim)
    with kne have "s1 = addChild (Some (normalize p)) (normalize (questionOriginal n))
        (trim (questionOriginal n)) s"
      by (simp add: s1_def normalize_trim)
    with addChild_edges [OF kne d] Some show ?thesis by simp
  qed
qed

lemma dedupPass_edges:
  "dedupPass pocket s = (u, s') \<Longrightarrow> edgesDistinct s \<Longrightarrow>
     edgesDistinct s' \<and> (\<forall>pk. keysOf s pk \<subseteq> keysOf s' pk) \<and>
     (\<forall>n\<in>set pocket. \<forall>p. parentOriginal n = Some p \<longrightarrow>
        trim (questionOriginal n) \<noteq> [] \<longrightarrow> trim p \<noteq> [] \<longrightarrow>
        normalize (questionOriginal n) \<in> keysOf s' (normalize p))"
proof (induction pocket arbitrary: s u s')
  case Nil
  then show ?case by simp
next
  case (Cons n pocket)
  let ?q = "trim (questionOriginal n)"
  show ?case
  proof (cases "?q = []")
    case True
    with Cons.prems have "dedupPass pocket s = (u, s')" by simp
    from Cons.IH [OF this Cons.prems(2)] True show ?thesis by simp
  next
    case False
    let ?po = "case parentOriginal n of None \<Rightarrow> None
                | Some p \<Rightarrow> if p = [] then None else Some (trim p)"
    let ?s1 = "case keyOfParent ?po of None \<Rightarrow> s
                | Some pk \<Rightarrow> if pk = [] then s else addChild (keyOfParent ?po) (normalize ?q) ?q s"
    let ?t = "if normalize ?q \<in> seen ?s1 then ?s1
              else ?s1\<lparr>seen := insert (normalize ?q) (seen ?s1)\<rparr>"
    note step = dedup_step_edges [OF Cons.prems(2) False]
    have kt: "keysOf ?t pk = keysOf ?s1 pk" for pk
      by (simp add: keysOf_def childrenOf_seen)
    from step have dt: "edgesDistinct ?t"
      by (simp add: edgesDistinct_def childrenOf_seen)
    obtain u' where r: "dedupPass pocket ?t = (u', s')"
      using Cons.prems(1) False by (auto simp: Let_def split: if_splits prod.splits)
    note ih = Cons.IH [OF r dt]
    have mono: "keysOf s pk \<subseteq> keysOf s' pk" for pk
      using step ih kt by blast
    have n_ok: "normalize (questionOriginal n) \<in> keysOf s' (normalize p)"
      if "parentOriginal n = Some p" "trim p \<noteq> []" for p
      using step ih kt that by blast
    from ih mono n_ok show ?thesis by simp
  qed
qed


lemma proposalsOf_emit: "proposalsOf (emit ev s) = proposalsOf s @ proposedPair ev"
  by (simp add: proposalsOf_def emit_def)

lemma proposals_map: "concat (map proposedPair (map (Proposed q) qs)) = map (Pair q) qs"
  by (induction qs) auto

lemma propose_proposals:
  "propose q d xs s = (nx, s') \<Longrightarrow>
     proposalsOf s' = proposalsOf s @ map (\<lambda>m. (q, questionOriginal m)) nx \<and>
     (\<forall>m\<in>set nx. parentOriginal m = Some q \<and> trim (questionOriginal m) \<noteq> [])"
  by (auto simp: propose_def Let_def proposalsOf_def proposals_map comp_def trim_idem)

lemma answerQuantifiable_proposals:
  assumes "answerQuantifiable D P n a src srcs s = (Inr nx, s')"
  shows "proposalsOf s' = proposalsOf s @ map (\<lambda>m. (questionOriginal n, questionOriginal m)) nx \<and>
     (\<forall>m\<in>set nx. parentOriginal m = Some (questionOriginal n) \<and> trim (questionOriginal m) \<noteq> [])"
proof -
  let ?q = "questionOriginal n"
  let ?s1 = "setAnswered (normalize ?q)
                 \<lparr>entryQuestionOriginal = ?q, quantifiable = True, answer = a,
                  source = Some src, sources = srcs,
                  entryParentOriginal = parentOriginal n,
                  parentKey = keyOfParent (parentOriginal n)\<rparr> s"
  have p1: "proposalsOf ?s1 = proposalsOf s" by (simp add: proposalsOf_def setAnswered_def)
  show ?thesis
  proof (cases "depth n < D")
    case False
    with assms have "nx = []" "s' = ?s1" by (simp_all add: answerQuantifiable_def Let_def)
    with p1 show ?thesis by simp
  next
    case True
    let ?s2 = "emit (AskedFollowups ?q a) ?s1"
    have p2: "proposalsOf ?s2 = proposalsOf s" by (simp add: proposalsOf_emit p1)
    from assms True obtain fs where "detectFollowupsFromAnswer P ?q a = Inr fs"
      and "propose ?q (depth n) fs ?s2 = (nx, s')"
      by (auto simp: answerQuantifiable_def Let_def split: sum.splits prod.splits)
    from propose_proposals [OF this(2)] p2 show ?thesis by simp
  qed
qed

lemma resolveNode_proposals:
  assumes "resolveNode D P n s = (Inr nx, s')"
  shows "proposalsOf s' = proposalsOf s @ map (\<lambda>m. (questionOriginal n, questionOriginal m)) nx \<and>
     (\<forall>m\<in>set nx. parentOriginal m = Some (questionOriginal n) \<and> trim (questionOriginal m) \<noteq> [])"
proof -
  let ?q = "questionOriginal n"
  let ?s1 = "emit (Classified ?q) s"
  have p1: "proposalsOf ?s1 = proposalsOf s" by (simp add: proposalsOf_emit)
  from assms obtain b where b: "isQuantifiable P ?q = Inr b"
    by (auto simp: resolveNode_def Let_def split: sum.splits)
  show ?thesis
  proof (cases b)
    case False
    let ?s2 = "setAnswered (normalize ?q)
                         \<lparr>entryQuestionOriginal = ?q, quantifiable = False,
                          answer = NOT_ANSWERED, source = None, sources = [],
                          entryParentOriginal = parentOriginal n,
                          parentKey = keyOfParent (parentOriginal n)\<rparr> ?s1"
    have p2: "proposalsOf ?s2 = proposalsOf s" by (simp add: proposalsOf_def setAnswered_def emit_def)
    show ?thesis
    proof (cases "depth n < D")
      case nd: False
      with assms b False have "nx = []" "s' = ?s2" by (simp_all add: resolveNode_def Let_def)
      with p2 show ?thesis by simp
    next
      case True
      let ?s3 = "emit (Decomposed ?q) ?s2"
      have p3: "proposalsOf ?s3 = proposalsOf s" by (simp add: proposalsOf_emit p2)
      from assms b False True obtain subs where "decomposeToQuantifiable P ?q = Inr subs"
        and "propose ?q (depth n) subs ?s3 = (nx, s')"
        by (auto simp: resolveNode_def Let_def split: sum.splits prod.splits)
      from propose_proposals [OF this(2)] p3 show ?thesis by simp
    qed
  next
    case True
    let ?s2 = "emit (AskedMcp ?q) ?s1"
    let ?s3 = "emit (AskedWeb ?q) ?s2"
    have p: "proposalsOf ?s2 = proposalsOf s" "proposalsOf ?s3 = proposalsOf s"
      by (simp_all add: proposalsOf_emit)
    from assms b True have "\<exists>a src srcs s0. proposalsOf s0 = proposalsOf s \<and>
        answerQuantifiable D P n a src srcs s0 = (Inr nx, s')"
      using p by (auto simp: resolveNode_def Let_def split: sum.splits option.splits if_splits)
    then obtain a src srcs s0 where "proposalsOf s0 = proposalsOf s"
      "answerQuantifiable D P n a src srcs s0 = (Inr nx, s')" by blast
    with answerQuantifiable_proposals [OF this(2)] show ?thesis by simp
  qed
qed

lemma answerAll_proposals:
  "answerAll D P ns s = (Inr results, s') \<Longrightarrow>
     set (proposalsOf s') \<subseteq> set (proposalsOf s) \<union>
       {(p, c). p \<in> questionOriginal ` set ns \<and> trim c \<noteq> [] \<and>
          (\<exists>m\<in>set (concat results). questionOriginal m = c \<and> parentOriginal m = Some p)}"
proof (induction ns arbitrary: s results s')
  case Nil
  then show ?case by simp
next
  case (Cons n ns)
  obtain r1 s1 where r1: "resolveNode D P n s = (r1, s1)" by force
  with Cons.prems obtain nx where nx: "r1 = Inr nx" by (cases r1) auto
  obtain r2 s2 where r2: "answerAll D P ns s1 = (r2, s2)" by force
  with Cons.prems r1 nx obtain rs where rs: "r2 = Inr rs" "results = nx # rs" "s' = s2"
    by (cases r2) auto
  note a = resolveNode_proposals [OF r1 [unfolded nx]]
  note b = Cons.IH [OF r2 [unfolded rs(1)]]
  show ?case
  proof
    fix x assume "x \<in> set (proposalsOf s')"
    with b rs have "x \<in> set (proposalsOf s1) \<or> x \<in> {(p, c). p \<in> questionOriginal ` set ns \<and> trim c \<noteq> [] \<and>
          (\<exists>m\<in>set (concat rs). questionOriginal m = c \<and> parentOriginal m = Some p)}" by auto
    then show "x \<in> set (proposalsOf s) \<union>
       {(p, c). p \<in> questionOriginal ` set (n # ns) \<and> trim c \<noteq> [] \<and>
          (\<exists>m\<in>set (concat results). questionOriginal m = c \<and> parentOriginal m = Some p)}"
    proof
      assume "x \<in> set (proposalsOf s1)"
      with a show ?thesis using rs(2) by auto
    next
      assume "x \<in> {(p, c). p \<in> questionOriginal ` set ns \<and> trim c \<noteq> [] \<and>
          (\<exists>m\<in>set (concat rs). questionOriginal m = c \<and> parentOriginal m = Some p)}"
      then show ?thesis using rs(2) by auto
    qed
  qed
qed

lemma dedupPass_trimmed:
  "dedupPass pocket s = (u, s') \<Longrightarrow> m \<in> set u \<Longrightarrow> trim (questionOriginal m) \<noteq> []"
proof (induction pocket arbitrary: s u s')
  case Nil
  then show ?case by simp
next
  case (Cons n pocket)
  then show ?case
    by (fastforce simp: Let_def trim_idem split: if_splits prod.splits)
qed


lemma dedupPass_completes:
  assumes I: "edgesPending pocket s"
    and dd: "dedupPass pocket (s\<lparr>rounds := Suc (rounds s)\<rparr>) = (u, s1)"
  shows "edgesComplete s1 \<and>
    (\<forall>(p, c)\<in>set (proposalsOf s1). trim p \<noteq> [] \<and> trim c \<noteq> [])"
proof -
  let ?s0 = "s\<lparr>rounds := Suc (rounds s)\<rparr>"
  from I have d0: "edgesDistinct ?s0"
    by (simp add: edgesPending_def edgesDistinct_def childrenOf_rounds)
  have k0: "keysOf ?s0 pk = keysOf s pk" for pk by (simp add: keysOf_def childrenOf_rounds)
  note e = dedupPass_edges [OF dd d0]
  from dedupPass_frame [OF dd] have pr: "proposalsOf s1 = proposalsOf s"
    by (simp add: proposalsOf_def)
  have "normalize c \<in> keysOf s1 (normalize p) \<and> trim p \<noteq> [] \<and> trim c \<noteq> []"
    if pc: "(p, c) \<in> set (proposalsOf s)" for p c
  proof -
    from I pc have t: "trim p \<noteq> []" "trim c \<noteq> []"
      and alt: "normalize c \<in> keysOf s (normalize p) \<or>
          (\<exists>n\<in>set pocket. questionOriginal n = c \<and> parentOriginal n = Some p)"
      by (auto simp: edgesPending_def)
    from alt have "normalize c \<in> keysOf s1 (normalize p)"
    proof
      assume "normalize c \<in> keysOf s (normalize p)"
      with e k0 show ?thesis by blast
    next
      assume "\<exists>n\<in>set pocket. questionOriginal n = c \<and> parentOriginal n = Some p"
      then obtain n where "n \<in> set pocket" "questionOriginal n = c" "parentOriginal n = Some p"
        by blast
      with e t show ?thesis by blast
    qed
    with t show ?thesis by simp
  qed
  with e pr show ?thesis by (auto simp: edgesComplete_def)
qed

lemma loop_edges:
  assumes "edgesPending pocket s"
  shows "fst (engineLoop D P pocket s) = None \<longrightarrow> edgesComplete (snd (engineLoop D P pocket s))"
proof (rule engineLoop_rule [where I = edgesPending and Q = "\<lambda>r s. r = None \<longrightarrow> edgesComplete s"])
  show "edgesPending pocket s" by (rule assms)
next
  fix s :: engine_state
  assume "edgesPending [] s"
  then show "None = None \<longrightarrow> edgesComplete s"
    by (auto simp: edgesPending_def edgesComplete_def)
next
  fix pocket and s s1 :: engine_state
  assume "edgesPending pocket s" "dedupPass pocket (s\<lparr>rounds := Suc (rounds s)\<rparr>) = ([], s1)"
  from dedupPass_completes [OF this] show "None = None \<longrightarrow> edgesComplete s1" by simp
next
  fix e :: error and s2 :: engine_state
  show "Some e = None \<longrightarrow> edgesComplete s2" by simp
next
  fix pocket u results and s s1 s2 :: engine_state
  assume I: "edgesPending pocket s"
    and dd: "dedupPass pocket (s\<lparr>rounds := Suc (rounds s)\<rparr>) = (u, s1)"
    and aa: "answerAll D P u s1 = (Inr results, s2)"
  from dedupPass_completes [OF I dd] have c1: "edgesComplete s1"
    and t1: "\<And>p c. (p, c) \<in> set (proposalsOf s1) \<Longrightarrow> trim p \<noteq> [] \<and> trim c \<noteq> []"
    by auto
  from answerAll_frame [OF aa] have ch: "children s2 = children s1" by simp
  then have k: "keysOf s2 pk = keysOf s1 pk" for pk by (simp add: keysOf_def childrenOf_def)
  from ch c1 have d2: "edgesDistinct s2"
    by (simp add: edgesComplete_def edgesDistinct_def childrenOf_def)
  note sub = answerAll_proposals [OF aa]
  have "trim p \<noteq> [] \<and> trim c \<noteq> [] \<and>
         (normalize c \<in> keysOf s2 (normalize p) \<or>
          (\<exists>n\<in>set (concat results). questionOriginal n = c \<and> parentOriginal n = Some p))"
    if pc: "(p, c) \<in> set (proposalsOf s2)" for p c
  proof (cases "(p, c) \<in> set (proposalsOf s1)")
    case True
    with c1 t1 k show ?thesis by (auto simp: edgesComplete_def)
  next
    case False
    with sub pc have p: "p \<in> questionOriginal ` set u" and c: "trim c \<noteq> []"
      and n: "\<exists>m\<in>set (concat results). questionOriginal m = c \<and> parentOriginal m = Some p"
      by auto
    from p dedupPass_trimmed [OF dd] have "trim p \<noteq> []" by auto
    with c n show ?thesis by simp
  qed
  with d2 show "edgesPending (concat results) s2" by (auto simp: edgesPending_def)
qed

lemma count_one:
  "distinct (map f xs) \<Longrightarrow> a \<in> f ` set xs \<Longrightarrow> length (filter (\<lambda>x. f x = a) xs) = 1"
proof (induction xs)
  case Nil
  then show ?case by simp
next
  case (Cons x xs)
  show ?case
  proof (cases "f x = a")
    case True
    with Cons.prems have "a \<notin> f ` set xs" by simp
    then have "filter (\<lambda>y. f y = a) xs = []" by (auto simp: filter_empty_conv)
    with True show ?thesis by simp
  next
    case False
    with Cons show ?thesis by auto
  qed
qed

lemma run_edges:
  assumes "fst (engineLoop D P (rootPocket q) initialState) = None"
    and "(p, c) \<in> set (proposalsOf (snd (engineLoop D P (rootPocket q) initialState)))"
  shows "edgeCount (snd (engineLoop D P (rootPocket q) initialState)) (normalize p) (normalize c) = 1"
proof -
  have "edgesPending (rootPocket q) initialState"
    by (simp add: edgesPending_def edgesDistinct_def childrenOf_def proposalsOf_def initialState_def)
  from loop_edges [OF this, of D P] assms(1)
  have ec: "edgesComplete (snd (engineLoop D P (rootPocket q) initialState))" by simp
  let ?arr = "childrenOf (snd (engineLoop D P (rootPocket q) initialState)) (normalize p)"
  from ec have d: "distinct (map key ?arr)" by (simp add: edgesComplete_def edgesDistinct_def)
  from ec assms(2) have m: "normalize c \<in> key ` set ?arr"
    by (auto simp: edgesComplete_def keysOf_def)
  from count_one [OF d m] show ?thesis by (simp add: edgeCount_def)
qed

lemma pass_edges:
  assumes dd: "dedupPass pocket s = (u, s1)" and d: "edgesDistinct s"
    and n: "n \<in> set pocket" "parentOriginal n = Some p"
      "trim (questionOriginal n) \<noteq> []" "trim p \<noteq> []"
  shows "edgeCount s1 (normalize p) (normalize (questionOriginal n)) = 1"
proof -
  note e = dedupPass_edges [OF dd d]
  from e have "distinct (map key (childrenOf s1 (normalize p)))" by (simp add: edgesDistinct_def)
  moreover from e n have "normalize (questionOriginal n) \<in> key ` set (childrenOf s1 (normalize p))"
    by (auto simp: keysOf_def)
  ultimately show ?thesis unfolding edgeCount_def by (rule count_one)
qed

text \<open>
  C5: the dedup pass records the edge of a node under its parent's key before it looks
  the node's key up in \<open>seen\<close>, so after the pass every node of the pocket that has a
  parent has exactly one edge there, whether or not its key was seen or answered before;
  and in a run that returns, every child that was proposed has exactly one edge under
  its parent's key, however often it was proposed.
\<close>

theorem every_proposed_child_has_one_edge:
  "(dedupPass pocket s = (u, sd) \<longrightarrow> edgesDistinct s \<longrightarrow> n \<in> set pocket \<longrightarrow>
      parentOriginal n = Some p' \<longrightarrow> trim (questionOriginal n) \<noteq> [] \<longrightarrow> trim p' \<noteq> [] \<longrightarrow>
      edgeCount sd (normalize p') (normalize (questionOriginal n)) = 1) \<and>
   (fst (engineLoop D P (rootPocket q) initialState) = None \<longrightarrow>
      (p, c) \<in> set (proposalsOf (snd (engineLoop D P (rootPocket q) initialState))) \<longrightarrow>
      edgeCount (snd (engineLoop D P (rootPocket q) initialState)) (normalize p) (normalize c) = 1)"
  using pass_edges run_edges by blast

theorem every_proposed_child_witness:
  "''what is b?'' \<in> seen seenBefore \<and>
   fst (dedupPass [childNode ''q'' ''What is B?''] seenBefore) = [] \<and>
   edgeCount (snd (dedupPass [childNode ''q'' ''What is B?''] seenBefore)) ''q'' ''what is b?'' = 1 \<and>
   fst (engineLoop 1 (followupProviders [''What is B?'', ''what  is b?'']) (rootPocket ''q'') initialState) = None \<and>
   proposalsOf (snd (engineLoop 1 (followupProviders [''What is B?'', ''what  is b?'']) (rootPocket ''q'') initialState))
     = [(''q'', ''What is B?''), (''q'', ''what  is b?'')] \<and>
   edgeCount (snd (engineLoop 1 (followupProviders [''What is B?'', ''what  is b?'']) (rootPocket ''q'') initialState))
     ''q'' ''what is b?'' = 1"
proof -
  let ?P = "followupProviders [''What is B?'', ''what  is b?'']"
  let ?run = "engineLoop 1 ?P (rootPocket ''q'') initialState"
  let ?n = "childNode ''q'' ''What is B?''"
  let ?u = "fst (dedupPass [?n] seenBefore)"
  let ?s1 = "snd (dedupPass [?n] seenBefore)"
  have a: "fst ?run = None" by code_simp
  have b: "proposalsOf (snd ?run) = [(''q'', ''What is B?''), (''q'', ''what  is b?'')]" by code_simp
  have kq: "normalize ''q'' = ''q''" by code_simp
  have kb: "normalize ''what  is b?'' = ''what is b?''" by code_simp
  have kB: "normalize ''What is B?'' = ''what is b?''" by code_simp
  from b have m: "(''q'', ''what  is b?'') \<in> set (proposalsOf (snd ?run))" by simp
  have s: "''what is b?'' \<in> seen seenBefore" by (simp add: seenBefore_def)
  have u: "?u = []" by code_simp
  have dd: "dedupPass [?n] seenBefore = (?u, ?s1)" by simp
  have d: "edgesDistinct seenBefore"
    by (simp add: edgesDistinct_def childrenOf_def seenBefore_def initialState_def)
  have n: "?n \<in> set [?n]" "parentOriginal ?n = Some ''q''" by (simp_all add: childNode_def)
  have t: "trim (questionOriginal ?n) \<noteq> []" "trim ''q'' \<noteq> []" by code_simp+
  have qn: "questionOriginal ?n = ''What is B?''" by (simp add: childNode_def)
  note inst = every_proposed_child_has_one_edge [where pocket = "[?n]" and s = seenBefore and u = ?u
      and sd = ?s1 and n = ?n and p' = "''q''" and D = 1 and P = ?P and q = "''q''"
      and p = "''q''" and c = "''what  is b?''"]
  from inst dd d n t have 1: "edgeCount ?s1 (normalize ''q'') (normalize (questionOriginal ?n)) = 1"
    by blast
  from inst a m have 2: "edgeCount (snd ?run) (normalize ''q'') (normalize ''what  is b?'') = 1"
    by blast
  from 1 2 s u a b show ?thesis unfolding qn kq kb kB by simp
qed


end
